theory Spec2Isabelle
  imports Complex_Main
begin

section \<open>Python built-ins used by \<^verbatim>\<open>src/main.py\<close>\<close>

text \<open>
  The exceptions that the modelled code can raise.  \<open>QueueEmpty\<close> is \<^verbatim>\<open>queue.Empty\<close>,
  which \<^verbatim>\<open>multiprocessing.Queue.get(block=False)\<close> raises on an empty queue.
\<close>

datatype exn = ValueError | AssertionError string | IndexError | QueueEmpty

text \<open>
  How a call ends: it returns a value, it leaves through \<^verbatim>\<open>sys.exit(n)\<close>, or it
  raises an exception.
\<close>

datatype 'a outcome = Return 'a | SysExit int | Raise exn

subsection \<open>\<^verbatim>\<open>str(n)\<close> for an integer\<close>

text \<open>
  The decimal digits, with a leading minus sign for a negative number.  (The limit
  that recent versions of Python put on the number of digits in conversions between
  \<^verbatim>\<open>int\<close> and \<^verbatim>\<open>str\<close> is outside the model.)
\<close>

definition digit_char :: "nat \<Rightarrow> char" where
  "digit_char d = char_of (48 + d)"

function str_nat :: "nat \<Rightarrow> string" where
  "str_nat n = (if n < 10 then [digit_char n] else str_nat (n div 10) @ [digit_char (n mod 10)])"
  by pat_completeness auto
termination
  by (relation "measure id") auto

declare str_nat.simps [simp del]

definition py_str :: "int \<Rightarrow> string" where
  "py_str n = (if n < 0 then CHR ''-'' # str_nat (nat (- n)) else str_nat (nat n))"

subsection \<open>\<^verbatim>\<open>int(s)\<close> for a string\<close>

text \<open>
  \<^verbatim>\<open>int\<close> in base 10 accepts surrounding whitespace, one optional sign, and decimal
  digits with single underscores between them; anything else is a \<^verbatim>\<open>ValueError\<close>.
  Strings are byte strings here, so the non-ASCII decimal digits and spaces that
  Python also accepts are outside the model.
\<close>

definition is_digit :: "char \<Rightarrow> bool" where
  "is_digit c = (48 \<le> (of_char c :: nat) \<and> (of_char c :: nat) \<le> 57)"

definition digit_val :: "char \<Rightarrow> nat" where
  "digit_val c = of_char c - 48"

definition is_space :: "char \<Rightarrow> bool" where
  "is_space c = (let k = (of_char c :: nat) in (9 \<le> k \<and> k \<le> 13) \<or> (28 \<le> k \<and> k \<le> 32))"

definition strip :: "string \<Rightarrow> string" where
  "strip s = rev (dropWhile is_space (rev (dropWhile is_space s)))"

fun grouped_digits :: "string \<Rightarrow> bool" where
  "grouped_digits [] = False"
| "grouped_digits [c] = is_digit c"
| "grouped_digits (c # d # cs) =
     (is_digit c \<and> (if d = CHR ''_'' then grouped_digits cs else grouped_digits (d # cs)))"

definition digits_value :: "string \<Rightarrow> nat" where
  "digits_value s = foldl (\<lambda>acc c. 10 * acc + digit_val c) 0 s"

definition int_body :: "string \<Rightarrow> exn + nat" where
  "int_body s =
     (if grouped_digits s then Inr (digits_value (filter (\<lambda>c. c \<noteq> CHR ''_'') s))
      else Inl ValueError)"

definition py_int :: "string \<Rightarrow> exn + int" where
  "py_int s =
     (case strip s of
        [] \<Rightarrow> Inl ValueError
      | c # cs \<Rightarrow>
          if c = CHR ''-'' then
            (case int_body cs of Inl e \<Rightarrow> Inl e | Inr n \<Rightarrow> Inr (- int n))
          else if c = CHR ''+'' then
            (case int_body cs of Inl e \<Rightarrow> Inl e | Inr n \<Rightarrow> Inr (int n))
          else
            (case int_body (c # cs) of Inl e \<Rightarrow> Inl e | Inr n \<Rightarrow> Inr (int n)))"

subsection \<open>\<^verbatim>\<open>s.split(sep)\<close> for a one-character separator\<close>

fun split_on :: "char \<Rightarrow> string \<Rightarrow> string list" where
  "split_on sep [] = [[]]"
| "split_on sep (c # cs) =
     (if c = sep then [] # split_on sep cs
      else (case split_on sep cs of [] \<Rightarrow> [[c]] | w # ws \<Rightarrow> (c # w) # ws))"

text \<open>\<^verbatim>\<open>list(map(int, parts))\<close>: the first part that is no integer raises.\<close>

fun map_int :: "string list \<Rightarrow> exn + int list" where
  "map_int [] = Inr []"
| "map_int (p # ps) =
     (case py_int p of
        Inl e \<Rightarrow> Inl e
      | Inr n \<Rightarrow> (case map_int ps of Inl e \<Rightarrow> Inl e | Inr ns \<Rightarrow> Inr (n # ns)))"

section \<open>The forced seed of \<^verbatim>\<open>run_inner\<close>\<close>

text \<open>
  \<^verbatim>\<open>
  force_rng_seed: Optional[int] = None
  force_seed: Optional[int] = None
  if options.force_seed:
      seed_parts = list(map(int, options.force_seed.split(",")))
      force_rng_seed = seed_parts[-1]
      force_seed = 0 if len(seed_parts) == 1 else seed_parts[0]
  \<close>
  The result is the pair \<open>(force_rng_seed, force_seed)\<close>.  \<^verbatim>\<open>split\<close> never returns
  an empty list, so the \<^verbatim>\<open>IndexError\<close> branch is only there for totality.
\<close>

definition parse_force_seed :: "string option \<Rightarrow> exn + (int option \<times> int option)" where
  "parse_force_seed arg =
     (case arg of
        None \<Rightarrow> Inr (None, None)
      | Some s \<Rightarrow>
          if s = [] then Inr (None, None)
          else
            (case map_int (split_on CHR '','' s) of
               Inl e \<Rightarrow> Inl e
             | Inr [] \<Rightarrow> Inl IndexError
             | Inr (p # ps) \<Rightarrow>
                 Inr (Some (last (p # ps)), Some (if length (p # ps) = 1 then 0 else p))))"

section \<open>Data model\<close>

text \<open>
  The fields of \<^verbatim>\<open>Options\<close> that the modelled functions read.  The remaining fields
  (\<^verbatim>\<open>directories\<close>, \<^verbatim>\<open>show_errors\<close>, \<^verbatim>\<open>stack_differences\<close>, \<^verbatim>\<open>keep_prob\<close>,
  \<^verbatim>\<open>network_priority\<close>) only reach the start-up code and the collaborators.
\<close>

record options =
  show_timings :: bool
  print_diffs :: bool
  abort_exceptions :: bool
  stop_on_zero :: bool
  force_seed :: "string option"
  threads :: nat
  use_network :: bool

text \<open>
  Modelled from the spec: \<^verbatim>\<open>perm_eval.perm_gen_all_seeds\<close> and
  \<^verbatim>\<open>permutations.is_random()\<close>, which \<^verbatim>\<open>cycle_seeds\<close> calls, are not in \<^verbatim>\<open>main.py\<close>.
  The specification describes the seed space of a target as a ``finite explicit
  set, or infinite randomized generator'': an enumerated list of seeds, or a
  randomized space whose generator never ends; \<open>Randomized f\<close> draws \<open>f 0\<close>, \<open>f 1\<close>, ...
\<close>

datatype seed_space = Enumerated "int list" | Randomized "nat \<Rightarrow> int"

text \<open>
  The attributes of a \<^verbatim>\<open>Permuter\<close> that \<^verbatim>\<open>main.py\<close> reads or writes.  \<open>diff\<close> and
  \<open>base_source\<close> stand for the methods of that name, \<open>PENALTY_INF\<close> for
  \<^verbatim>\<open>permuter.scorer.PENALTY_INF\<close>.
\<close>

record permuter =
  dir :: string
  unique_name :: string
  base_score :: int
  best_score :: int
  hashes :: "string set"
  PENALTY_INF :: int
  permutations :: seed_space
  base_source :: string
  diff :: "string \<Rightarrow> string"

text \<open>
  \<^verbatim>\<open>EvalResult = Union[CandidateResult, EvalError]\<close>.  Of a result's profiler only
  \<^verbatim>\<open>time_stats\<close> is read: a dictionary, kept as its items in iteration order.
\<close>

record ('k, 'v) candidate_result =
  score :: "int option"
  hash :: "string option"
  source :: "string option"
  profiler :: "('k \<times> 'v) list"

datatype ('k, 'v) eval_result =
    EvalError (exc_str: string) (seed: "(int \<times> int) option")
  | Scored "('k, 'v) candidate_result"

text \<open>
  The two methods of the run's \<^verbatim>\<open>Profiler\<close> that \<^verbatim>\<open>post_score\<close> calls, taken as
  parameters (the class is not in \<^verbatim>\<open>main.py\<close>).
\<close>

record ('o, 'k, 'v) profiler_api =
  add_stat :: "'o \<Rightarrow> 'k \<Rightarrow> 'v \<Rightarrow> 'o"
  get_str_stats :: "'o \<Rightarrow> string"

record 'o eval_context =
  opts :: options
  iteration :: int
  errors :: int
  overall_profiler :: 'o
  permuters :: "permuter list"

text \<open>
  What the aggregator does to the outside world, in order.  \<open>Stdout s\<close> writes \<open>s\<close> to
  standard output; \<open>Prompt s\<close> is \<^verbatim>\<open>input(s)\<close>; \<open>MkOutputDir d p\<close> is the loop of
  \<^verbatim>\<open>write_candidate\<close> that creates, under directory \<open>d\<close>, the first directory
  \<open>p\<close>\<^verbatim>\<open><ctr>\<close> (\<^verbatim>\<open>ctr\<close> = 1, 2, ...) that does not exist yet; \<open>WriteOutputFiles\<close> writes
  \<^verbatim>\<open>source.c\<close>, \<^verbatim>\<open>base.c\<close>, \<^verbatim>\<open>score.txt\<close> and \<^verbatim>\<open>diff.txt\<close> into it and reports
  the directory; \<open>PrintTraceback\<close> is \<^verbatim>\<open>traceback.print_exc()\<close>.  The contents of the
  file system are not part of the model.
\<close>

datatype event =
    Stdout string
  | Prompt string
  | MkOutputDir string string
  | WriteOutputFiles string string string string
  | PrintTraceback

definition print_line :: "string \<Rightarrow> event" where
  "print_line s = Stdout (s @ [CHR 0x0A])"

section \<open>\<^verbatim>\<open>write_candidate\<close>\<close>

definition opt_int_str :: "int option \<Rightarrow> string" where
  "opt_int_str v = (case v of None \<Rightarrow> ''None'' | Some n \<Rightarrow> py_str n)"

definition write_candidate ::
  "permuter \<Rightarrow> ('k, 'v) candidate_result \<Rightarrow> event list \<times> unit outcome" where
  "write_candidate perm result =
     (let mk = MkOutputDir (dir perm) (''output-'' @ opt_int_str (score result) @ ''-'') in
      case source result of
        None \<Rightarrow> ([mk], Raise (AssertionError ''need_to_send_source is wrong!''))
      | Some src \<Rightarrow>
          ([mk,
            WriteOutputFiles src (base_source perm)
              (opt_int_str (score result) @ [CHR 0x0A]) (diff perm src @ [CHR 0x0A])],
           Return ()))"

section \<open>\<^verbatim>\<open>post_score\<close>\<close>

text \<open>
  \<^verbatim>\<open>
  seed_str = str(result.seed[1])
  if result.seed[0] != 0:
      seed_str = f"{result.seed[0]},{seed_str}"
  \<close>
\<close>

definition seed_str :: "int \<times> int \<Rightarrow> string" where
  "seed_str sd =
     (if fst sd \<noteq> 0 then py_str (fst sd) @ '','' @ py_str (snd sd) else py_str (snd sd))"

definition disp_score :: "permuter \<Rightarrow> int option \<Rightarrow> string" where
  "disp_score perm score_value =
     (if score_value = Some (PENALTY_INF perm) then ''inf'' else opt_int_str score_value)"

definition status_text :: "int \<Rightarrow> int \<Rightarrow> string \<Rightarrow> string \<Rightarrow> string" where
  "status_text iter errs disp timings =
     ''iteration '' @ py_str iter @ '', '' @ py_str errs @ '' errors, score = '' @ disp @ timings"

text \<open>The four coloured messages of the branch that accepts a result.\<close>

definition announcement :: "permuter \<Rightarrow> int \<Rightarrow> string" where
  "announcement perm s =
     (let vs = '' ('' @ py_str s @ '' vs '' @ py_str (base_score perm) @ '')'' @ [CHR 0x1B] @ ''[0m''
      in
      if s < best_score perm then
        [CHR 0x1B] @ ''[32;1m['' @ unique_name perm @ ''] found new best score!'' @ vs
      else if s = best_score perm then
        [CHR 0x1B] @ ''[32;1m['' @ unique_name perm @ ''] tied best score!'' @ vs
      else if s < base_score perm then
        [CHR 0x1B] @ ''[33m['' @ unique_name perm @ ''] found a better score!'' @ vs
      else
        [CHR 0x1B] @ ''[33m['' @ unique_name perm @ ''] found different asm with same score (''
          @ py_str s @ '')'' @ [CHR 0x1B] @ ''[0m'')"

text \<open>
  The condition of the \<^verbatim>\<open>if\<close> that guards the update of the permuter and the call of
  \<^verbatim>\<open>write_candidate\<close>:
  \<^verbatim>\<open>
  score_value is not None and score_hash is not None
  and score_value <= permuter.base_score and score_hash not in permuter.hashes
  \<close>
\<close>

definition accepts :: "permuter \<Rightarrow> int option \<Rightarrow> string option \<Rightarrow> bool" where
  "accepts perm score_value score_hash =
     (case score_value of
        None \<Rightarrow> False
      | Some s \<Rightarrow>
          (case score_hash of
             None \<Rightarrow> False
           | Some h \<Rightarrow> s \<le> base_score perm \<and> h \<notin> hashes perm))"

text \<open>
  The body of that \<^verbatim>\<open>if\<close>, for a result that is accepted: the hash is recorded unless
  the score is 0, the message is printed, the best score is updated, and the
  candidate is written.
\<close>

definition accept_result ::
  "permuter \<Rightarrow> ('k, 'v) candidate_result \<Rightarrow> int \<Rightarrow> string \<Rightarrow> string
     \<Rightarrow> event list \<times> permuter \<times> unit outcome" where
  "accept_result perm result s h status_line =
     (let perm1 = (if s \<noteq> 0 then perm\<lparr>hashes := insert h (hashes perm)\<rparr> else perm);
          clear = Stdout ([CHR 0x0D] @ replicate (length status_line + 10) CHR '' '' @ [CHR 0x0D]);
          msg = print_line (announcement perm1 s);
          perm2 = perm1\<lparr>best_score := min (best_score perm1) s\<rparr>;
          w = write_candidate perm2 result
      in (clear # msg # fst w, perm2, snd w))"

definition post_score ::
  "('o, 'k, 'v) profiler_api \<Rightarrow> 'o eval_context \<Rightarrow> permuter \<Rightarrow> ('k, 'v) eval_result
     \<Rightarrow> event list \<times> ('o eval_context \<times> permuter) \<times> bool outcome" where
  "post_score api context perm res =
     (case res of
        EvalError exc sd \<Rightarrow>
          (let out =
                 [print_line ([CHR 0x0A] @ ''['' @ unique_name perm @ ''] internal permuter failure.''),
                  print_line exc]
                 @ (case sd of
                      None \<Rightarrow> []
                    | Some p \<Rightarrow>
                        [print_line (''To reproduce the failure, rerun with: --seed '' @ seed_str p)])
           in if abort_exceptions (opts context) then (out, (context, perm), SysExit 1)
              else (out, (context, perm), Return False))
      | Scored result \<Rightarrow>
          if print_diffs (opts context) \<and> source result = None then
            ([], (context, perm), Raise (AssertionError ''need_to_send_source is wrong''))
          else
            (let out1 =
                   (case source result of
                      None \<Rightarrow> []
                    | Some src \<Rightarrow>
                        if print_diffs (opts context) then
                          [print_line [], print_line (diff perm src),
                           Prompt ''Press any key to continue...'']
                        else []);
                 context1 = context\<lparr>iteration := iteration context + 1\<rparr>;
                 context2 =
                   (if score result = None then context1\<lparr>errors := errors context1 + 1\<rparr>
                    else context1);
                 disp = disp_score perm (score result);
                 context3 =
                   (if show_timings (opts context2) then
                      context2\<lparr>overall_profiler :=
                        foldl (\<lambda>prof kv. add_stat api prof (fst kv) (snd kv))
                          (overall_profiler context2) (profiler result)\<rparr>
                    else context2);
                 timings =
                   (if show_timings (opts context2) then
                      ''  '' @ [CHR 0x09] @ get_str_stats api (overall_profiler context3)
                    else []);
                 status_line = status_text (iteration context3) (errors context3) disp timings;
                 final =
                   Stdout (replicate 10 (CHR 0x08) @ replicate 10 CHR '' '' @ [CHR 0x0D] @ status_line);
                 found = (score result = Some 0)
             in case (score result, hash result) of
                  (Some s, Some h) \<Rightarrow>
                    if accepts perm (score result) (hash result) then
                      (case accept_result perm result s h status_line of
                         (out2, perm2, Return u) \<Rightarrow>
                           (out1 @ out2 @ [final], (context3, perm2), Return found)
                       | (out2, perm2, SysExit n) \<Rightarrow> (out1 @ out2, (context3, perm2), SysExit n)
                       | (out2, perm2, Raise e) \<Rightarrow> (out1 @ out2, (context3, perm2), Raise e))
                    else (out1 @ [final], (context3, perm), Return found)
                | _ \<Rightarrow> (out1 @ [final], (context3, perm), Return found)))"

section \<open>\<^verbatim>\<open>cycle_seeds\<close>\<close>

text \<open>
  A Python iterator over seeds: over a list, or one that never ends (\<open>Endless f\<close>
  yields \<open>f 0\<close>, \<open>f 1\<close>, ...).  \<open>iter_next\<close> is \<^verbatim>\<open>next(it, None)\<close> together with the
  iterator's new state.
\<close>

datatype seed_iter = ListIter "int list" | Endless "nat \<Rightarrow> int"

fun iter_next :: "seed_iter \<Rightarrow> (int \<times> seed_iter) option" where
  "iter_next (ListIter []) = None"
| "iter_next (ListIter (x # xs)) = Some (x, ListIter xs)"
| "iter_next (Endless f) = Some (f 0, Endless (\<lambda>n. f (Suc n)))"

text \<open>
  Modelled from the spec: \<^verbatim>\<open>is_random\<close> tells the two kinds of seed space apart, and
  \<^verbatim>\<open>perm_gen_all_seeds\<close> iterates over the seeds of the space.
\<close>

fun is_random :: "seed_space \<Rightarrow> bool" where
  "is_random (Enumerated xs) = False"
| "is_random (Randomized f) = True"

fun perm_gen_all_seeds :: "seed_space \<Rightarrow> seed_iter" where
  "perm_gen_all_seeds (Enumerated xs) = ListIter xs"
| "perm_gen_all_seeds (Randomized f) = Endless f"

text \<open>
  The first loop of \<^verbatim>\<open>cycle_seeds\<close>: one iterator per permuter, each paired with the
  permuter's index (\<^verbatim>\<open>zip(itertools.repeat(perm_ind), it)\<close>).  \<^verbatim>\<open>not force_seed\<close> holds
  for \<^verbatim>\<open>None\<close> and for 0.
\<close>

definition seed_iterator :: "int option \<Rightarrow> permuter \<Rightarrow> seed_iter" where
  "seed_iterator forced perm =
     (case forced of
        None \<Rightarrow> perm_gen_all_seeds (permutations perm)
      | Some v \<Rightarrow>
          if v = 0 then perm_gen_all_seeds (permutations perm)
          else if is_random (permutations perm) then Endless (\<lambda>n. v)
          else ListIter [v])"

definition seed_iterators :: "permuter list \<Rightarrow> int option \<Rightarrow> (nat \<times> seed_iter) list" where
  "seed_iterators perms forced =
     map (\<lambda>(perm_ind, perm). (perm_ind, seed_iterator forced perm)) (enumerate 0 perms)"

text \<open>\<^verbatim>\<open>del xs[j]\<close> for an index in range.\<close>

definition del_at :: "nat \<Rightarrow> 'a list \<Rightarrow> 'a list" where
  "del_at j xs = take j xs @ drop (Suc j) xs"

text \<open>
  The state of the generator between two items: the list \<^verbatim>\<open>iterators\<close> and the
  index \<^verbatim>\<open>i\<close>.  \<open>cycle_next\<close> runs the second loop up to its next \<^verbatim>\<open>yield\<close>:
  \<^verbatim>\<open>
  while iterators:
      i %= len(iterators)
      item = next(iterators[i], None)
      if item is None:
          del iterators[i]
          i -= 1
      else:
          yield item
          i += 1
  \<close>
  The result is \<open>None\<close> when the loop ends, and the item with the state that the
  generator resumes from (after \<^verbatim>\<open>i += 1\<close>) otherwise.  \<open>i\<close> is an integer: it is \<open>-1\<close>
  after the iterator at index 0 was deleted, and Python's \<^verbatim>\<open>%\<close> with a positive
  modulus is \<open>mod\<close> on \<open>int\<close>.
\<close>

type_synonym gen_state = "(nat \<times> seed_iter) list \<times> int"

function cycle_next :: "gen_state \<Rightarrow> ((nat \<times> int) \<times> gen_state) option" where
  "cycle_next (iterators, i) =
     (if iterators = [] then None
      else
        (let j = nat (i mod int (length iterators)) in
         case iter_next (snd (iterators ! j)) of
           None \<Rightarrow> cycle_next (del_at j iterators, int j - 1)
         | Some (sd, it) \<Rightarrow>
             Some ((fst (iterators ! j), sd),
                   (iterators[j := (fst (iterators ! j), it)], int j + 1))))"
  by pat_completeness auto
termination
proof (relation "measure (\<lambda>(iterators, i). length iterators)")
  show "wf (measure (\<lambda>(iterators, i). length iterators))" by simp
next
  fix iterators :: "(nat \<times> seed_iter) list" and i :: int and x :: nat
  assume ne: "iterators \<noteq> []" and x: "x = nat (i mod int (length iterators))"
  from ne have "0 \<le> i mod int (length iterators)"
    and "i mod int (length iterators) < int (length iterators)" by simp_all
  with x have "x < length iterators" by linarith
  then show "((del_at x iterators, int x - 1), (iterators, i))
             \<in> measure (\<lambda>(iterators, i). length iterators)"
    by (simp add: del_at_def)
qed

declare cycle_next.simps [simp del]

definition cycle_seeds :: "permuter list \<Rightarrow> int option \<Rightarrow> gen_state" where
  "cycle_seeds perms forced = (seed_iterators perms forced, 0)"

text \<open>The first \<open>n\<close> items of the generator (fewer when it ends before).\<close>

fun gen_take :: "nat \<Rightarrow> gen_state \<Rightarrow> (nat \<times> int) list" where
  "gen_take 0 st = []"
| "gen_take (Suc n) st =
     (case cycle_next st of None \<Rightarrow> [] | Some (item, st') \<Rightarrow> item # gen_take n st')"

text \<open>
  How \<^verbatim>\<open>run_inner\<close> starts the generator: the forced seed is parsed, the second
  component of the result (\<^verbatim>\<open>force_seed\<close>) goes to \<^verbatim>\<open>cycle_seeds\<close>, the first
  (\<^verbatim>\<open>force_rng_seed\<close>) to the constructor of every permuter.
  \<^verbatim>\<open>
  perm_seed_iter = iter(cycle_seeds(context.permuters, force_seed))
  \<close>
\<close>

definition start_seeds :: "options \<Rightarrow> permuter list \<Rightarrow> exn + gen_state" where
  "start_seeds options perms =
     (case parse_force_seed (force_seed options) of
        Inl e \<Rightarrow> Inl e
      | Inr (rng_seed, forced) \<Rightarrow> Inr (cycle_seeds perms forced))"

section \<open>Messages on the two queues\<close>

text \<open>
  \<^verbatim>\<open>Task\<close> is a \<^verbatim>\<open>Finished\<close> sentinel or a pair (permuter index, seed);
  \<^verbatim>\<open>Feedback\<close> is \<^verbatim>\<open>NeedMoreWork\<close>, \<^verbatim>\<open>Finished\<close>, or a pair (permuter index, result).
\<close>

datatype task = Finished_task | Task nat int

datatype ('k, 'v) feedback = NeedMoreWork | Finished | Result nat "('k, 'v) eval_result"

section \<open>\<^verbatim>\<open>multiprocess_worker\<close>\<close>

text \<open>
  What one call of \<^verbatim>\<open>input_queue.get\<close> meets: the queue is empty at that moment, an
  item is available, or the interrupt arrives (\<^verbatim>\<open>KeyboardInterrupt\<close>).  The item is a
  task or, as the loop tests for it, \<^verbatim>\<open>None\<close>.  A worker's run is decided by the list
  of what its calls meet, in order.

  \<^verbatim>\<open>multiprocessing.Queue.get(block=False)\<close> returns an item when one is available and
  raises \<^verbatim>\<open>queue.Empty\<close> otherwise; \<^verbatim>\<open>get(block=True)\<close> waits until an item is
  available.
\<close>

datatype 'a pull = Empty | Avail 'a | Interrupt

text \<open>
  How the worker ends: it left the loop through \<^verbatim>\<open>break\<close>, it was interrupted (the
  handler passes), an exception escaped, or it is still in its loop when the list is
  used up (with the value of \<^verbatim>\<open>should_block\<close>).
\<close>

datatype worker_end = Left_loop | Interrupted | Escaped exn | Still_running bool

text \<open>
  \<^verbatim>\<open>
  should_block = False
  while True:
      queue_item = input_queue.get(block=should_block)
      if queue_item is None:
          output_queue.put(NeedMoreWork())
          should_block = True
          continue
      should_block = False
      if isinstance(queue_item, Finished):
          output_queue.put(queue_item)
          break
      permuter_index, seed = queue_item
      permuter = permuters[permuter_index]
      result = permuter.try_eval_candidate(seed)
      output_queue.put((permuter_index, result))
  \<close>
  The result is the list of items put on the output queue and the way the worker
  ends.  \<open>try_eval\<close> stands for \<^verbatim>\<open>Permuter.try_eval_candidate\<close>; \<^verbatim>\<open>reseed_random\<close> has no
  effect that the model could see.
\<close>

fun worker_loop ::
  "(permuter \<Rightarrow> int \<Rightarrow> ('k, 'v) eval_result) \<Rightarrow> permuter list \<Rightarrow> bool \<Rightarrow> task option pull list
     \<Rightarrow> ('k, 'v) feedback list \<times> worker_end" where
  "worker_loop try_eval perms should_block [] = ([], Still_running should_block)"
| "worker_loop try_eval perms should_block (Interrupt # rest) = ([], Interrupted)"
| "worker_loop try_eval perms should_block (Empty # rest) =
     (if should_block then worker_loop try_eval perms should_block rest
      else ([], Escaped QueueEmpty))"
| "worker_loop try_eval perms should_block (Avail None # rest) =
     (let r = worker_loop try_eval perms True rest in (NeedMoreWork # fst r, snd r))"
| "worker_loop try_eval perms should_block (Avail (Some Finished_task) # rest) =
     ([Finished], Left_loop)"
| "worker_loop try_eval perms should_block (Avail (Some (Task permuter_index sd)) # rest) =
     (if permuter_index < length perms then
        (let r = worker_loop try_eval perms False rest
         in (Result permuter_index (try_eval (perms ! permuter_index) sd) # fst r, snd r))
      else ([], Escaped IndexError))"

definition multiprocess_worker ::
  "(permuter \<Rightarrow> int \<Rightarrow> ('k, 'v) eval_result) \<Rightarrow> permuter list \<Rightarrow> task option pull list
     \<Rightarrow> ('k, 'v) feedback list \<times> worker_end" where
  "multiprocess_worker try_eval perms pulls = worker_loop try_eval perms False pulls"

section \<open>The loops of \<^verbatim>\<open>run_inner\<close> over the queues\<close>

text \<open>
  \<^verbatim>\<open>
  def process_result(result):
      permuter_index, res = result
      permuter = context.permuters[permuter_index]
      return post_score(context, permuter, res)
  \<close>
  \<^verbatim>\<open>post_score\<close> changes the permuter in place, which is the element of
  \<^verbatim>\<open>context.permuters\<close>: the model writes it back.
\<close>

definition process_result ::
  "('o, 'k, 'v) profiler_api \<Rightarrow> 'o eval_context \<Rightarrow> nat \<Rightarrow> ('k, 'v) eval_result
     \<Rightarrow> event list \<times> 'o eval_context \<times> bool outcome" where
  "process_result api context permuter_index res =
     (if permuter_index < length (permuters context) then
        (case post_score api context (permuters context ! permuter_index) res of
           (out, (context', perm'), r) \<Rightarrow>
             (out, context'\<lparr>permuters := (permuters context')[permuter_index := perm']\<rparr>, r))
      else ([], context, Raise IndexError))"

text \<open>
  The results of a run, handed to \<^verbatim>\<open>process_result\<close> one after the other as the
  loops of \<^verbatim>\<open>run_inner\<close> do.  The first call that does not return ends the run; the
  context is the one reached then.  The value returned says whether some call
  reported a score of 0.
\<close>

fun process_results ::
  "('o, 'k, 'v) profiler_api \<Rightarrow> 'o eval_context \<Rightarrow> (nat \<times> ('k, 'v) eval_result) list
     \<Rightarrow> event list \<times> 'o eval_context \<times> bool outcome" where
  "process_results api context [] = ([], context, Return False)"
| "process_results api context ((permuter_index, res) # rest) =
     (case process_result api context permuter_index res of
        (out, context', Return found) \<Rightarrow>
          (case process_results api context' rest of
             (out', context'', Return found') \<Rightarrow> (out @ out', context'', Return (found \<or> found'))
           | (out', context'', SysExit n) \<Rightarrow> (out @ out', context'', SysExit n)
           | (out', context'', Raise e) \<Rightarrow> (out @ out', context'', Raise e))
      | (out, context', SysExit n) \<Rightarrow> (out, context', SysExit n)
      | (out, context', Raise e) \<Rightarrow> (out, context', Raise e))"

text \<open>
  The coordinator's variables in the branch of \<^verbatim>\<open>run_inner\<close> that uses queues.
  \<open>task_queue\<close> holds what was put on the task queue so far, \<open>printed\<close> what
  \<^verbatim>\<open>post_score\<close> did to the outside, \<open>heartbeats\<close> counts the calls of \<^verbatim>\<open>heartbeat\<close>.
\<close>

record 'o coordinator =
  run_context :: "'o eval_context"
  found_zero :: bool
  active_workers :: nat
  perm_seed_iter :: gen_state
  task_queue :: "task list"
  printed :: "event list"
  heartbeats :: nat

text \<open>
  How a loop of the coordinator ends: it is left, \<^verbatim>\<open>feedback_queue.get()\<close> waits for
  feedback that never comes, or \<^verbatim>\<open>post_score\<close> ended the run (exit or exception).
\<close>

datatype loop_end = Loop_left | Waiting | Ended "unit outcome"

definition ended :: "bool outcome \<Rightarrow> loop_end" where
  "ended r = (case r of Return b \<Rightarrow> Ended (Return ()) | SysExit n \<Rightarrow> Ended (SysExit n)
              | Raise e \<Rightarrow> Ended (Raise e))"

text \<open>
  \<^verbatim>\<open>
  task = next(perm_seed_iter, None)
  if task is None:
      break
  task_queue.put(task)
  \<close>
\<close>

definition put_next_task :: "'o coordinator \<Rightarrow> 'o coordinator option" where
  "put_next_task c =
     (case cycle_next (perm_seed_iter c) of
        None \<Rightarrow> None
      | Some (item, g) \<Rightarrow>
          Some (c\<lparr>perm_seed_iter := g,
                  task_queue := task_queue c @ [Task (fst item) (snd item)]\<rparr>))"

text \<open>
  The dispatch loop, over the feedback that arrives (in order of arrival):
  \<^verbatim>\<open>
  while active_workers > 0:
      heartbeat()
      feedback = feedback_queue.get()
      if isinstance(feedback, Finished):
          active_workers -= 1
          continue
      if isinstance(feedback, NeedMoreWork):
          pass
      elif process_result(feedback):
          found_zero = True
          if options.stop_on_zero:
              break
      task = next(perm_seed_iter, None)
      if task is None:
          break
      task_queue.put(task)
  \<close>
  The result is the coordinator after the loop, the feedback not read yet, and the
  way the loop ended.
\<close>

fun dispatch_loop ::
  "('o, 'k, 'v) profiler_api \<Rightarrow> 'o coordinator \<Rightarrow> ('k, 'v) feedback list
     \<Rightarrow> 'o coordinator \<times> ('k, 'v) feedback list \<times> loop_end" where
  "dispatch_loop api c [] =
     (if active_workers c > 0 then (c\<lparr>heartbeats := heartbeats c + 1\<rparr>, [], Waiting)
      else (c, [], Loop_left))"
| "dispatch_loop api c (fb # rest) =
     (if active_workers c > 0 then
        (let c1 = c\<lparr>heartbeats := heartbeats c + 1\<rparr> in
         case fb of
           Finished \<Rightarrow> dispatch_loop api (c1\<lparr>active_workers := active_workers c1 - 1\<rparr>) rest
         | NeedMoreWork \<Rightarrow>
             (case put_next_task c1 of
                None \<Rightarrow> (c1, rest, Loop_left)
              | Some c2 \<Rightarrow> dispatch_loop api c2 rest)
         | Result permuter_index res \<Rightarrow>
             (case process_result api (run_context c1) permuter_index res of
                (out, context', Return found) \<Rightarrow>
                  (let c2 = c1\<lparr>run_context := context', printed := printed c1 @ out,
                               found_zero := (found_zero c1 \<or> found)\<rparr>
                   in if found \<and> stop_on_zero (opts context') then (c2, rest, Loop_left)
                      else
                        (case put_next_task c2 of
                           None \<Rightarrow> (c2, rest, Loop_left)
                         | Some c3 \<Rightarrow> dispatch_loop api c3 rest))
              | (out, context', r) \<Rightarrow>
                  (c1\<lparr>run_context := context', printed := printed c1 @ out\<rparr>, rest, ended r)))
      else (c, fb # rest, Loop_left))"

text \<open>
  \<^verbatim>\<open>
  for i in range(active_workers):
      task_queue.put(Finished())
  \<close>
\<close>

definition signal_workers :: "'o coordinator \<Rightarrow> 'o coordinator" where
  "signal_workers c = c\<lparr>task_queue := task_queue c @ replicate (active_workers c) Finished_task\<rparr>"

text \<open>
  \<^verbatim>\<open>
  while active_workers > 0:
      heartbeat()
      feedback = feedback_queue.get()
      if isinstance(feedback, Finished):
          active_workers -= 1
      elif isinstance(feedback, NeedMoreWork):
          pass
      elif not (options.stop_on_zero and found_zero):
          if process_result(feedback):
              found_zero = True
  \<close>
\<close>

fun await_loop ::
  "('o, 'k, 'v) profiler_api \<Rightarrow> 'o coordinator \<Rightarrow> ('k, 'v) feedback list
     \<Rightarrow> 'o coordinator \<times> ('k, 'v) feedback list \<times> loop_end" where
  "await_loop api c [] =
     (if active_workers c > 0 then (c\<lparr>heartbeats := heartbeats c + 1\<rparr>, [], Waiting)
      else (c, [], Loop_left))"
| "await_loop api c (fb # rest) =
     (if active_workers c > 0 then
        (let c1 = c\<lparr>heartbeats := heartbeats c + 1\<rparr> in
         case fb of
           Finished \<Rightarrow> await_loop api (c1\<lparr>active_workers := active_workers c1 - 1\<rparr>) rest
         | NeedMoreWork \<Rightarrow> await_loop api c1 rest
         | Result permuter_index res \<Rightarrow>
             if \<not> (stop_on_zero (opts (run_context c1)) \<and> found_zero c1) then
               (case process_result api (run_context c1) permuter_index res of
                  (out, context', Return found) \<Rightarrow>
                    await_loop api
                      (c1\<lparr>run_context := context', printed := printed c1 @ out,
                          found_zero := (found_zero c1 \<or> found)\<rparr>) rest
                | (out, context', r) \<Rightarrow>
                    (c1\<lparr>run_context := context', printed := printed c1 @ out\<rparr>, rest, ended r))
             else await_loop api c1 rest)
      else (c, fb # rest, Loop_left))"

text \<open>
  The part of \<^verbatim>\<open>run_inner\<close> from the dispatch loop to the end of the await loop.
  When it is left normally, \<^verbatim>\<open>run_inner\<close> joins the workers and returns the best
  scores.
\<close>

definition run_queues ::
  "('o, 'k, 'v) profiler_api \<Rightarrow> 'o coordinator \<Rightarrow> ('k, 'v) feedback list
     \<Rightarrow> 'o coordinator \<times> ('k, 'v) feedback list \<times> loop_end" where
  "run_queues api c fbs =
     (case dispatch_loop api c fbs of
        (c1, rest, Loop_left) \<Rightarrow> await_loop api (signal_workers c1) rest
      | (c1, rest, e) \<Rightarrow> (c1, rest, e))"

section \<open>\<^verbatim>\<open>run\<close>: the interrupt handler\<close>

text \<open>
  How \<^verbatim>\<open>run_inner\<close> ends, as \<^verbatim>\<open>run\<close> sees it: it returns the best scores, a
  \<^verbatim>\<open>KeyboardInterrupt\<close> escapes from it, or it leaves through \<^verbatim>\<open>sys.exit\<close> or another
  exception (which the handler does not catch).
\<close>

datatype inner_end =
  Inner_returned "int list" | Inner_interrupted | Inner_exit int | Inner_raised exn

text \<open>
  \<^verbatim>\<open>
  last_time = time.time()
  try:
      def heartbeat(): nonlocal last_time; last_time = time.time()
      return run_inner(options, heartbeat)
  except KeyboardInterrupt:
      if time.time() - last_time > 5:
          print(); print("Aborting stuck process."); traceback.print_exc(); sys.exit(1)
      print(); print("Exiting."); sys.exit(0)
  \<close>
  The clock readings are parameters: \<open>start\<close> is the first reading, \<open>beats\<close> are the
  readings of the calls of \<^verbatim>\<open>heartbeat\<close> that \<^verbatim>\<open>run_inner\<close> made, in order, and \<open>now\<close>
  is the reading in the handler.  Readings are real numbers (the difference of two
  readings of \<^verbatim>\<open>time.time()\<close> that are within a factor of two of each other is exact
  in floating point).
\<close>

definition run :: "real \<Rightarrow> real list \<Rightarrow> inner_end \<Rightarrow> real \<Rightarrow> event list \<times> int list outcome" where
  "run start beats inner now =
     (let last_time = last (start # beats) in
      case inner of
        Inner_returned scores \<Rightarrow> ([], Return scores)
      | Inner_exit n \<Rightarrow> ([], SysExit n)
      | Inner_raised e \<Rightarrow> ([], Raise e)
      | Inner_interrupted \<Rightarrow>
          if now - last_time > 5 then
            ([print_line [], print_line ''Aborting stuck process.'', PrintTraceback], SysExit 1)
          else ([print_line [], print_line ''Exiting.''], SysExit 0))"

section \<open>Observations used in the statements\<close>

text \<open>The output directories that a list of events creates, in order.\<close>

fun mkdirs :: "event list \<Rightarrow> (string \<times> string) list" where
  "mkdirs [] = []"
| "mkdirs (MkOutputDir d p # es) = (d, p) # mkdirs es"
| "mkdirs (Stdout s # es) = mkdirs es"
| "mkdirs (Prompt s # es) = mkdirs es"
| "mkdirs (WriteOutputFiles a b c d # es) = mkdirs es"
| "mkdirs (PrintTraceback # es) = mkdirs es"

text \<open>
  What is left of the iterator of target \<open>t\<close> in the rotation; a target that is not
  in the rotation (any more) has nothing left.
\<close>

definition remaining :: "nat \<Rightarrow> (nat \<times> seed_iter) list \<Rightarrow> seed_iter" where
  "remaining t its = (case map_of its t of None \<Rightarrow> ListIter [] | Some it \<Rightarrow> it)"

text \<open>The seeds that a list iterator still holds.\<close>

fun finite_seeds :: "seed_iter \<Rightarrow> int list" where
  "finite_seeds (ListIter xs) = xs"
| "finite_seeds (Endless f) = []"

text \<open>A scored result whose score and hash are present.\<close>

definition scored ::
  "int \<Rightarrow> string \<Rightarrow> string option \<Rightarrow> ('k \<times> 'v) list \<Rightarrow> ('k, 'v) eval_result" where
  "scored s h src pr = Scored \<lparr>score = Some s, hash = Some h, source = src, profiler = pr\<rparr>"

text \<open>The results, among the feedback of a run, that belong to permuter \<open>k\<close>.\<close>

definition target_results :: "nat \<Rightarrow> (nat \<times> 'r) list \<Rightarrow> 'r list" where
  "target_results k fbs = map snd (filter (\<lambda>fb. fst fb = k) fbs)"

text \<open>The score and the hash of a result, when it is a scored result that has both.\<close>

fun score_hash :: "('k, 'v) eval_result \<Rightarrow> (int \<times> string) option" where
  "score_hash (EvalError exc sd) = None"
| "score_hash (Scored r) =
     (case score r of
        None \<Rightarrow> None
      | Some s \<Rightarrow> (case hash r of None \<Rightarrow> None | Some h \<Rightarrow> Some (s, h)))"

section \<open>Example data\<close>

definition example_options :: options where
  "example_options =
     \<lparr>show_timings = False, print_diffs = False, abort_exceptions = False, stop_on_zero = False,
      force_seed = None, threads = 2, use_network = False\<rparr>"

definition example_permuter :: "int \<Rightarrow> string set \<Rightarrow> seed_space \<Rightarrow> permuter" where
  "example_permuter base seen space =
     \<lparr>dir = ''dir'', unique_name = ''func'', base_score = base, best_score = base, hashes = seen,
      PENALTY_INF = 1000000000, permutations = space, base_source = ''int f(void);'',
      diff = (\<lambda>s. s)\<rparr>"

definition example_api :: "(unit, unit, unit) profiler_api" where
  "example_api = \<lparr>add_stat = (\<lambda>prof k v. prof), get_str_stats = (\<lambda>prof. [])\<rparr>"

definition example_context :: "permuter list \<Rightarrow> unit eval_context" where
  "example_context perms =
     \<lparr>opts = example_options, iteration = 0, errors = 0, overall_profiler = (),
      permuters = perms\<rparr>"

definition example_result :: "int \<Rightarrow> string \<Rightarrow> (unit, unit) eval_result" where
  "example_result s h =
     Scored \<lparr>score = Some s, hash = Some h, source = Some ''int f(void) { return 0; }'',
            profiler = []\<rparr>"

definition example_coordinator :: "nat \<Rightarrow> permuter list \<Rightarrow> unit coordinator" where
  "example_coordinator w perms =
     \<lparr>run_context = example_context perms, found_zero = False, active_workers = w,
      perm_seed_iter = cycle_seeds perms None, task_queue = [], printed = [], heartbeats = 0\<rparr>"

section \<open>Round-robin order, as the specification words it\<close>

text \<open>
  Follows the specification, not the code: ``targets are visited in strict
  round-robin order among those still producing seeds'', for targets whose seed
  spaces are the given lists.  Round \<open>r\<close> takes seed number \<open>r\<close> of every target that
  has one, in the order of the targets.
\<close>

definition round_robin :: "int list list \<Rightarrow> (nat \<times> int) list" where
  "round_robin spaces =
     concat (transpose (map (\<lambda>(t, xs). map (Pair t) xs) (enumerate 0 spaces)))"

section \<open>Facts about the built-ins\<close>

lemma digit_val_digit_char: "d < 10 \<Longrightarrow> digit_val (digit_char d) = d"
  by (simp add: digit_val_def digit_char_def)

lemma is_digit_digit_char: "d < 10 \<Longrightarrow> is_digit (digit_char d)"
  by (simp add: is_digit_def digit_char_def)

lemma is_digit_not_space: "is_digit c \<Longrightarrow> \<not> is_space c"
  by (auto simp: is_digit_def is_space_def Let_def)

lemma is_digit_neq: "is_digit c \<Longrightarrow> c \<noteq> CHR '','' \<and> c \<noteq> CHR ''_'' \<and> c \<noteq> CHR ''-'' \<and> c \<noteq> CHR ''+''"
  by (auto simp: is_digit_def)

lemma str_nat_digits: "list_all is_digit (str_nat n)"
proof (induction n rule: str_nat.induct)
  case (1 n)
  show ?case
  proof (cases "n < 10")
    case True
    then show ?thesis by (subst str_nat.simps) (simp add: is_digit_digit_char)
  next
    case False
    with "1" show ?thesis by (subst str_nat.simps) (simp add: is_digit_digit_char)
  qed
qed

lemma str_nat_nonempty: "str_nat n \<noteq> []"
  by (subst str_nat.simps) simp

lemma digits_value_snoc: "digits_value (s @ [c]) = 10 * digits_value s + digit_val c"
  by (simp add: digits_value_def)

lemma digits_value_str_nat: "digits_value (str_nat n) = n"
proof (induction n rule: str_nat.induct)
  case (1 n)
  show ?case
  proof (cases "n < 10")
    case True
    then show ?thesis
      by (subst str_nat.simps) (simp add: digits_value_def digit_val_digit_char)
  next
    case False
    with "1" have "digits_value (str_nat (n div 10)) = n div 10" by simp
    with False show ?thesis
      by (subst str_nat.simps) (simp add: digits_value_snoc digit_val_digit_char)
  qed
qed

lemma grouped_digits_all: "s \<noteq> [] \<Longrightarrow> list_all is_digit s \<Longrightarrow> grouped_digits s"
  by (induction s rule: grouped_digits.induct) (auto dest: is_digit_neq)

lemma filter_digits: "list_all is_digit s \<Longrightarrow> filter (\<lambda>c. c \<noteq> CHR ''_'') s = s"
  by (induction s) (auto dest: is_digit_neq)

lemma int_body_str_nat: "int_body (str_nat n) = Inr n"
  by (simp add: int_body_def grouped_digits_all str_nat_nonempty str_nat_digits
      filter_digits digits_value_str_nat)

lemma dropWhile_unchanged: "s \<noteq> [] \<Longrightarrow> \<not> P (hd s) \<Longrightarrow> dropWhile P s = s"
  by (cases s) auto

lemma strip_id: "s \<noteq> [] \<Longrightarrow> \<not> is_space (hd s) \<Longrightarrow> \<not> is_space (last s) \<Longrightarrow> strip s = s"
  by (simp add: strip_def dropWhile_unchanged hd_rev)

lemma str_nat_hd: "is_digit (hd (str_nat n))"
  using str_nat_digits [of n] str_nat_nonempty [of n] by (cases "str_nat n") auto

lemma str_nat_last: "is_digit (last (str_nat n))"
  using str_nat_digits [of n] str_nat_nonempty [of n]
  by (metis last_in_set list_all_iff)

lemma strip_str_nat: "strip (str_nat n) = str_nat n"
  by (simp add: strip_id str_nat_nonempty str_nat_hd str_nat_last is_digit_not_space)

lemma minus_not_space: "\<not> is_space CHR ''-''"
  by (simp add: is_space_def)

lemma strip_minus_str_nat: "strip (CHR ''-'' # str_nat n) = CHR ''-'' # str_nat n"
  by (rule strip_id)
    (simp_all add: str_nat_nonempty str_nat_last is_digit_not_space minus_not_space)

lemma py_int_py_str: "py_int (py_str n) = Inr n"
proof (cases "n < 0")
  case True
  then show ?thesis
    by (simp add: py_int_def py_str_def strip_minus_str_nat int_body_str_nat)
next
  case False
  obtain c cs where s: "str_nat (nat n) = c # cs"
    using str_nat_nonempty [of "nat n"] by (cases "str_nat (nat n)") auto
  have d: "is_digit c"
    using str_nat_hd [of "nat n"] s by simp
  have "int_body (c # cs) = Inr (nat n)"
    using int_body_str_nat [of "nat n"] s by simp
  with False s d show ?thesis
    using strip_str_nat [of "nat n"] is_digit_neq [OF d]
    by (simp add: py_int_def py_str_def)
qed

lemma py_str_no_comma: "CHR '','' \<notin> set (py_str n)"
  using str_nat_digits [of "nat n"] str_nat_digits [of "nat (- n)"]
  by (auto simp: py_str_def list_all_iff dest: is_digit_neq)

lemma py_str_nonempty: "py_str n \<noteq> []"
  by (simp add: py_str_def str_nat_nonempty)

lemma split_on_none: "sep \<notin> set s \<Longrightarrow> split_on sep s = [s]"
  by (induction s) auto

lemma split_on_first: "sep \<notin> set a \<Longrightarrow> split_on sep (a @ sep # b) = a # split_on sep b"
  by (induction a) auto

section \<open>The forced seed and the reproduction instruction\<close>

lemma parse_single: "parse_force_seed (Some (py_str b)) = Inr (Some b, Some 0)"
  by (simp add: parse_force_seed_def py_str_nonempty split_on_none py_str_no_comma py_int_py_str)

lemma parse_pair:
  "parse_force_seed (Some (py_str a @ CHR '','' # py_str b)) = Inr (Some b, Some a)"
  by (simp add: parse_force_seed_def split_on_first split_on_none py_str_no_comma py_int_py_str)

text \<open>
  C10.  For an \<^verbatim>\<open>EvalError\<close> that carries the seed pair \<open>(a, b)\<close>, \<^verbatim>\<open>post_score\<close> prints
  three lines, the last of which is the reproduction instruction with the string
  \<open>b\<close> when \<open>a = 0\<close> and \<open>a,b\<close> otherwise; given as the forced-seed argument, that
  string is parsed by \<^verbatim>\<open>run_inner\<close> into \<^verbatim>\<open>force_seed = a\<close> and \<^verbatim>\<open>force_rng_seed = b\<close>
  (\<open>parse_force_seed\<close> returns the pair \<open>(force_rng_seed, force_seed)\<close>).
\<close>

theorem seed_str_roundtrip:
  "fst (post_score api context perm (EvalError exc (Some (a, b)))) =
     [print_line ([CHR 0x0A] @ ''['' @ unique_name perm @ ''] internal permuter failure.''),
      print_line exc,
      print_line (''To reproduce the failure, rerun with: --seed ''
                  @ (if a = 0 then py_str b else py_str a @ '','' @ py_str b))]
   \<and> parse_force_seed (Some (if a = 0 then py_str b else py_str a @ '','' @ py_str b))
       = Inr (Some b, Some a)"
  by (simp add: post_score_def Let_def seed_str_def parse_single parse_pair)

section \<open>\<^verbatim>\<open>EvalError\<close> feedback\<close>

text \<open>
  C7, as the code has it.  An \<^verbatim>\<open>EvalError\<close> is printed once: the failure line, the
  exception text and, when a seed is known, the reproduction instruction.  The
  context (with its error and iteration counters) and the permuter are left as they
  were.  With \<^verbatim>\<open>abort_exceptions\<close> the process exits with status 1, otherwise
  \<^verbatim>\<open>post_score\<close> returns \<^verbatim>\<open>False\<close>.
\<close>

theorem eval_error_reported:
  "post_score api context perm (EvalError exc sd) =
     ([print_line ([CHR 0x0A] @ ''['' @ unique_name perm @ ''] internal permuter failure.''),
       print_line exc]
      @ (case sd of
           None \<Rightarrow> []
         | Some p \<Rightarrow> [print_line (''To reproduce the failure, rerun with: --seed '' @ seed_str p)]),
      (context, perm),
      (if abort_exceptions (opts context) then SysExit 1 else Return False))"
  by (simp add: post_score_def Let_def)

text \<open>
  C7 as stated fails: after an \<^verbatim>\<open>EvalError\<close> the error counter is not one more than
  before.
\<close>

theorem eval_error_not_counted:
  "errors (fst (fst (snd (post_score example_api
       (example_context [example_permuter 100 {} (Enumerated [1])])
       (example_permuter 100 {} (Enumerated [1])) (EvalError ''boom'' None)))))
   \<noteq> errors (example_context [example_permuter 100 {} (Enumerated [1])]) + 1"
  by (simp add: post_score_def Let_def example_context_def example_options_def)

section \<open>The interrupt handler\<close>

text \<open>
  C9.  When a \<^verbatim>\<open>KeyboardInterrupt\<close> escapes from \<^verbatim>\<open>run_inner\<close>, \<^verbatim>\<open>run\<close> exits with
  status 1 if the clock reading in the handler is more than 5 seconds after the last
  recorded reading, and with status 0 otherwise; the traceback is printed in the
  first case only.
\<close>

theorem interrupt_exit_status:
  "snd (run start beats Inner_interrupted now) =
     (if now - last (start # beats) > 5 then SysExit 1 else SysExit 0)
   \<and> (PrintTraceback \<in> set (fst (run start beats Inner_interrupted now))
        \<longleftrightarrow> now - last (start # beats) > 5)"
  by (simp add: run_def Let_def print_line_def)

section \<open>Scored feedback: what \<^verbatim>\<open>post_score\<close> records and writes\<close>

lemma post_score_scored_perm:
  "snd (fst (snd (post_score api ctx p (Scored r)))) =
     (if print_diffs (opts ctx) \<and> source r = None then p
      else if accepts p (score r) (hash r) then
        (if the (score r) \<noteq> 0 then p\<lparr>hashes := insert (the (hash r)) (hashes p)\<rparr> else p)
          \<lparr>best_score := min (best_score p) (the (score r))\<rparr>
      else p)"
  by (simp add: post_score_def Let_def accept_result_def accepts_def write_candidate_def
      split: option.splits prod.splits outcome.splits)

lemma post_score_scored_out:
  "mkdirs (fst (post_score api ctx p (Scored r))) =
     (if print_diffs (opts ctx) \<and> source r = None then []
      else if accepts p (score r) (hash r) then
        [(dir p, ''output-'' @ opt_int_str (score r) @ ''-'')]
      else [])"
  by (simp add: post_score_def Let_def accept_result_def accepts_def write_candidate_def print_line_def
      split: option.splits prod.splits outcome.splits)

lemma post_score_context:
  "permuters (fst (fst (snd (post_score api ctx p res)))) = permuters ctx
   \<and> opts (fst (fst (snd (post_score api ctx p res)))) = opts ctx"
  by (cases res) (simp_all add: post_score_def Let_def accept_result_def 
      split: option.splits prod.splits outcome.splits)

lemma post_score_error_perm: "snd (fst (snd (post_score api ctx p (EvalError e sd)))) = p"
  by (simp add: post_score_def Let_def)

lemma post_score_assert:
  "print_diffs (opts ctx) \<Longrightarrow> source r = None \<Longrightarrow>
     snd (snd (post_score api ctx p (Scored r))) = Raise (AssertionError ''need_to_send_source is wrong'')"
  by (simp add: post_score_def)

text \<open>
  C1, as the code has it.  For a scored result with score \<open>s\<close> and hash \<open>h\<close> (and unless
  the assertion of \<^verbatim>\<open>print_diffs\<close> fails first), \<^verbatim>\<open>write_candidate\<close> is invoked,
  once, if and only if \<open>s\<close> is at most the base score and \<open>h\<close> is not in the dedup
  set; the hash is inserted if and only if, moreover, \<open>s\<close> is not 0.  So a hash is
  inserted only when it is not yet recorded, and a result with score 0 never
  inserts its hash.
\<close>

theorem scored_persisted:
  "mkdirs (fst (post_score api context perm (scored s h src pr))) =
     (if print_diffs (opts context) \<and> src = None then []
      else if s \<le> base_score perm \<and> h \<notin> hashes perm then
        [(dir perm, ''output-'' @ py_str s @ ''-'')]
      else [])
   \<and> hashes (snd (fst (snd (post_score api context perm (scored s h src pr))))) =
     (if (print_diffs (opts context) \<and> src = None) then hashes perm
      else if s \<le> base_score perm \<and> h \<notin> hashes perm \<and> s \<noteq> 0 then insert h (hashes perm)
      else hashes perm)"
  by (simp add: scored_def post_score_scored_out post_score_scored_perm accepts_def opt_int_str_def)

text \<open>
  C1 as stated fails: a result with score 0 whose hash is in the dedup set is not
  written, although its score is at most the base score and is 0.
\<close>

theorem zero_score_known_hash_not_persisted:
  "\<not> (mkdirs (fst (post_score example_api
            (example_context [example_permuter 10 {''h''} (Enumerated [1])])
            (example_permuter 10 {''h''} (Enumerated [1])) (example_result 0 ''h''))) \<noteq> []
       \<longleftrightarrow> (0 \<le> base_score (example_permuter 10 {''h''} (Enumerated [1]))
            \<and> (''h'' \<notin> hashes (example_permuter 10 {''h''} (Enumerated [1])) \<or> (0::int) = 0)))"
  by (simp add: example_result_def post_score_scored_out accepts_def example_permuter_def
      example_context_def example_options_def)

section \<open>The best score over a run\<close>

lemma process_result_length:
  "length (permuters (fst (snd (process_result api ctx i res)))) = length (permuters ctx)"
  using post_score_context [of api ctx "permuters ctx ! i" res]
  by (auto simp: process_result_def split: prod.splits)

lemma process_result_other:
  "i \<noteq> k \<Longrightarrow> permuters (fst (snd (process_result api ctx i res))) ! k = permuters ctx ! k"
  using post_score_context [of api ctx "permuters ctx ! i" res]
  by (auto simp: process_result_def split: prod.splits)

lemma process_result_same:
  "k < length (permuters ctx) \<Longrightarrow>
     permuters (fst (snd (process_result api ctx k res))) ! k
       = snd (fst (snd (post_score api ctx (permuters ctx ! k) res)))"
  using post_score_context [of api ctx "permuters ctx ! k" res]
  by (auto simp: process_result_def split: prod.splits)

lemma process_result_outcome:
  "k < length (permuters ctx) \<Longrightarrow>
     snd (snd (process_result api ctx k res)) = snd (snd (post_score api ctx (permuters ctx ! k) res))"
  by (auto simp: process_result_def split: prod.splits)

lemma post_score_best_le:
  "best_score (snd (fst (snd (post_score api ctx p res)))) \<le> best_score p"
  by (cases res) (simp_all add: post_score_error_perm post_score_scored_perm)

lemma post_score_base:
  "base_score (snd (fst (snd (post_score api ctx p res)))) = base_score p"
  by (cases res) (simp_all add: post_score_error_perm post_score_scored_perm)

lemma post_score_best_bound:
  "best_score (snd (fst (snd (post_score api ctx p res)))) \<noteq> best_score p \<Longrightarrow>
     best_score (snd (fst (snd (post_score api ctx p res)))) \<le> base_score p"
  by (cases res)
    (auto simp: post_score_error_perm post_score_scored_perm accepts_def
      split: if_splits option.splits)


lemma ctx_after_cons:
  "fst (snd (process_results api ctx ((i, res) # rest))) =
     (case snd (snd (process_result api ctx i res)) of
        Return f \<Rightarrow> fst (snd (process_results api (fst (snd (process_result api ctx i res))) rest))
      | SysExit n \<Rightarrow> fst (snd (process_result api ctx i res))
      | Raise e \<Rightarrow> fst (snd (process_result api ctx i res)))"
  by (simp split: prod.splits outcome.splits)

lemma returns_cons:
  "snd (snd (process_results api ctx ((i, res) # rest))) = Return f \<Longrightarrow>
     (\<exists>f1. snd (snd (process_result api ctx i res)) = Return f1) \<and>
     (\<exists>f2. snd (snd (process_results api (fst (snd (process_result api ctx i res))) rest)) = Return f2)"
  by (auto split: prod.splits outcome.splits)

lemma process_results_length:
  "length (permuters (fst (snd (process_results api ctx fbs)))) = length (permuters ctx)"
proof (induction fbs arbitrary: ctx)
  case Nil
  show ?case by simp
next
  case (Cons fb rest)
  obtain i res where fb: "fb = (i, res)" by (cases fb)
  show ?case
    unfolding fb ctx_after_cons
    by (cases "snd (snd (process_result api ctx i res))")
      (simp_all add: Cons.IH process_result_length)
qed

lemma process_result_best_le:
  "k < length (permuters ctx) \<Longrightarrow>
     best_score (permuters (fst (snd (process_result api ctx i res))) ! k)
       \<le> best_score (permuters ctx ! k)"
  by (cases "i = k") (simp_all add: process_result_other process_result_same post_score_best_le)

lemma process_results_best_le:
  "k < length (permuters ctx) \<Longrightarrow>
     best_score (permuters (fst (snd (process_results api ctx fbs))) ! k)
       \<le> best_score (permuters ctx ! k)"
proof (induction fbs arbitrary: ctx)
  case Nil
  show ?case by simp
next
  case (Cons fb rest)
  obtain i res where fb: "fb = (i, res)" by (cases fb)
  let ?c1 = "fst (snd (process_result api ctx i res))"
  have k1: "k < length (permuters ?c1)"
    using Cons.prems by (simp add: process_result_length)
  have step: "best_score (permuters ?c1 ! k) \<le> best_score (permuters ctx ! k)"
    using Cons.prems by (rule process_result_best_le)
  show ?case
  proof (cases "snd (snd (process_result api ctx i res))")
    case (Return f)
    with Cons.IH [OF k1] step show ?thesis
      unfolding fb ctx_after_cons by simp
  next
    case (SysExit n)
    with step show ?thesis unfolding fb ctx_after_cons by simp
  next
    case (Raise e)
    with step show ?thesis unfolding fb ctx_after_cons by simp
  qed
qed

lemma outcome_cons:
  "snd (snd (process_results api ctx ((i, res) # rest))) =
     (case snd (snd (process_result api ctx i res)) of
        Return f \<Rightarrow>
          (case snd (snd (process_results api (fst (snd (process_result api ctx i res))) rest)) of
             Return f' \<Rightarrow> Return (f \<or> f')
           | SysExit n \<Rightarrow> SysExit n
           | Raise e \<Rightarrow> Raise e)
      | SysExit n \<Rightarrow> SysExit n
      | Raise e \<Rightarrow> Raise e)"
  by (simp split: prod.splits outcome.splits)

lemma ctx_after_append:
  "fst (snd (process_results api ctx (xs @ ys))) =
     (case snd (snd (process_results api ctx xs)) of
        Return f \<Rightarrow> fst (snd (process_results api (fst (snd (process_results api ctx xs))) ys))
      | SysExit n \<Rightarrow> fst (snd (process_results api ctx xs))
      | Raise e \<Rightarrow> fst (snd (process_results api ctx xs)))"
proof (induction xs arbitrary: ctx)
  case Nil
  show ?case by simp
next
  case (Cons fb rest)
  obtain i res where fb: "fb = (i, res)" by (cases fb)
  let ?c1 = "fst (snd (process_result api ctx i res))"
  show ?case
  proof (cases "snd (snd (process_result api ctx i res))")
    case (Return f)
    then show ?thesis
      unfolding fb append_Cons ctx_after_cons outcome_cons
      by (cases "snd (snd (process_results api ?c1 rest))") (simp_all add: Cons.IH)
  next
    case (SysExit n)
    then show ?thesis unfolding fb append_Cons ctx_after_cons outcome_cons by simp
  next
    case (Raise e)
    then show ?thesis unfolding fb append_Cons ctx_after_cons outcome_cons by simp
  qed
qed

lemma Min_insert_min:
  fixes a s :: int
  assumes "finite S"
  shows "Min (insert (min a s) S) = Min (insert a (insert s S))"
proof -
  have "Min (insert a (insert s S)) = min a (Min (insert s S))"
    using assms by simp
  also have "\<dots> = (if S = {} then min a s else min a (min s (Min S)))"
    using assms by simp
  also have "\<dots> = Min (insert (min a s) S)"
    using assms by (simp add: min.assoc)
  finally show ?thesis by simp
qed

lemma Min_insert_absorb:
  fixes a s :: int
  assumes "finite S" and "a \<le> s"
  shows "Min (insert a S) = Min (insert a (insert s S))"
  using Min_insert_min [OF assms(1), of a s] assms(2) by (simp add: min_def)

lemma best_after_run:
  assumes "snd (snd (process_results api ctx fbs)) = Return found"
    and "k < length (permuters ctx)"
    and "map score_hash (target_results k fbs) = map Some xs"
    and "best_score (permuters ctx ! k) \<le> base_score (permuters ctx ! k)"
    and "\<forall>(s, h) \<in> set xs. \<forall>(s', h') \<in> set xs. h = h' \<longrightarrow> s = s'"
    and "\<forall>(s, h) \<in> set xs. h \<in> hashes (permuters ctx ! k) \<longrightarrow> best_score (permuters ctx ! k) \<le> s"
  shows "best_score (permuters (fst (snd (process_results api ctx fbs))) ! k)
           = Min (insert (best_score (permuters ctx ! k)) (fst ` set xs))"
  using assms
proof (induction fbs arbitrary: ctx xs found)
  case Nil
  then show ?case by (simp add: target_results_def)
next
  case (Cons fb rest)
  obtain i res where fb: "fb = (i, res)" by (cases fb)
  let ?c1 = "fst (snd (process_result api ctx i res))"
  let ?p = "permuters ctx ! k"
  let ?p1 = "permuters ?c1 ! k"
  from Cons.prems(1) obtain f1 f2
    where r1: "snd (snd (process_result api ctx i res)) = Return f1"
      and r2: "snd (snd (process_results api ?c1 rest)) = Return f2"
    unfolding fb using returns_cons by blast
  have after: "fst (snd (process_results api ctx (fb # rest))) = fst (snd (process_results api ?c1 rest))"
    unfolding fb ctx_after_cons using r1 by simp
  have k1: "k < length (permuters ?c1)"
    using Cons.prems(2) by (simp add: process_result_length)
  show ?case
  proof (cases "i = k")
    case False
    then have same: "?p1 = ?p" by (simp add: process_result_other)
    from False have tr: "map score_hash (target_results k rest) = map Some xs"
      using Cons.prems(3) by (simp add: fb target_results_def)
    have "best_score (permuters (fst (snd (process_results api ?c1 rest))) ! k)
            = Min (insert (best_score ?p1) (fst ` set xs))"
      using Cons.IH [OF r2 k1 tr] Cons.prems(4,5,6) unfolding same by blast
    then show ?thesis unfolding after same .
  next
    case True
    from True Cons.prems(3) obtain s h xs' where xs: "xs = (s, h) # xs'"
      and sh: "score_hash res = Some (s, h)"
      and tr: "map score_hash (target_results k rest) = map Some xs'"
      by (cases xs) (auto simp: fb target_results_def)
    from sh obtain r where res: "res = Scored r" and sr: "score r = Some s" and hr: "hash r = Some h"
      by (cases res) (auto split: option.splits)
    have ok: "\<not> (print_diffs (opts ctx) \<and> source r = None)"
    proof
      assume "print_diffs (opts ctx) \<and> source r = None"
      then have "snd (snd (post_score api ctx ?p (Scored r))) = Raise (AssertionError ''need_to_send_source is wrong'')"
        by (simp add: post_score_assert)
      with r1 True Cons.prems(2) res show False
        by (simp add: process_result_outcome)
    qed
    have p1: "?p1 =
        (if s \<le> base_score ?p \<and> h \<notin> hashes ?p then
           (if s \<noteq> 0 then ?p\<lparr>hashes := insert h (hashes ?p)\<rparr> else ?p)
             \<lparr>best_score := min (best_score ?p) s\<rparr>
         else ?p)"
    proof -
      have "?p1 = snd (fst (snd (post_score api ctx ?p (Scored r))))"
        using True Cons.prems(2) by (simp add: res process_result_same)
      also have "\<dots> =
          (if accepts ?p (score r) (hash r) then
             (if the (score r) \<noteq> 0 then ?p\<lparr>hashes := insert (the (hash r)) (hashes ?p)\<rparr> else ?p)
               \<lparr>best_score := min (best_score ?p) (the (score r))\<rparr>
           else ?p)"
        unfolding post_score_scored_perm using ok by (rule if_not_P)
      finally show ?thesis by (simp add: accepts_def sr hr)
    qed
    have base1: "best_score ?p1 \<le> base_score ?p1"
      using Cons.prems(4) by (auto simp: p1 min_def)
    have cons1: "\<forall>(s, h) \<in> set xs'. \<forall>(s', h') \<in> set xs'. h = h' \<longrightarrow> s = s'"
      using Cons.prems(5) unfolding xs by auto
    have fresh1: "\<forall>(s', h') \<in> set xs'. h' \<in> hashes ?p1 \<longrightarrow> best_score ?p1 \<le> s'"
    proof (clarify)
      fix s' h' assume mem: "(s', h') \<in> set xs'" and hin: "h' \<in> hashes ?p1"
      show "best_score ?p1 \<le> s'"
      proof (cases "h' \<in> hashes ?p")
        case True
        with Cons.prems(6) mem have "best_score ?p \<le> s'" unfolding xs by auto
        moreover have "best_score ?p1 \<le> best_score ?p" by (auto simp: p1 min_def)
        ultimately show ?thesis by simp
      next
        case False
        with hin have acc: "s \<le> base_score ?p \<and> h \<notin> hashes ?p" and hh: "h' = h"
          by (auto simp: p1 split: if_splits)
        from Cons.prems(5) mem hh have "s' = s" unfolding xs by auto
        with acc show ?thesis by (auto simp: p1 min_def)
      qed
    qed
    have ih: "best_score (permuters (fst (snd (process_results api ?c1 rest))) ! k)
            = Min (insert (best_score ?p1) (fst ` set xs'))"
      using Cons.IH [OF r2 k1 tr base1 cons1 fresh1] .
    have fin: "finite (fst ` set xs')" by simp
    have "Min (insert (best_score ?p1) (fst ` set xs'))
            = Min (insert (best_score ?p) (insert s (fst ` set xs')))"
    proof (cases "s \<le> base_score ?p \<and> h \<notin> hashes ?p")
      case True
      then have "best_score ?p1 = min (best_score ?p) s" by (simp add: p1)
      then show ?thesis using Min_insert_min [OF fin] by simp
    next
      case False
      then have same: "best_score ?p1 = best_score ?p" by (auto simp: p1)
      have "best_score ?p \<le> s"
      proof (cases "h \<in> hashes ?p")
        case True
        with Cons.prems(6) show ?thesis unfolding xs by auto
      next
        case False
        with \<open>\<not> (s \<le> base_score ?p \<and> h \<notin> hashes ?p)\<close> have "base_score ?p < s" by simp
        with Cons.prems(4) show ?thesis by simp
      qed
      then show ?thesis unfolding same using Min_insert_absorb [OF fin] by simp
    qed
    with ih show ?thesis unfolding after by (simp add: xs)
  qed
qed


text \<open>
  C2, as the code has it.  Take the feedback of a run that returns, and a permuter
  \<open>k\<close> whose results all carry a score and a hash, \<open>xs\<close> being the list of these
  (score, hash) pairs.  If the best score starts at or below the base score, results
  with equal hashes have equal scores, and no result whose hash is already in the
  dedup set has a score below the best score at the start, then the best score after
  the run is the minimum of the best score at the start and the scores.  In every
  run, whatever the feedback, the best score of a permuter after more feedback is
  at most what it was before, and a call of \<^verbatim>\<open>process_result\<close> that changes the best
  score leaves it at or below the base score.
\<close>

theorem best_score_after_run:
  "(snd (snd (process_results api ctx fbs)) = Return found
      \<and> k < length (permuters ctx)
      \<and> map score_hash (target_results k fbs) = map Some xs
      \<and> best_score (permuters ctx ! k) \<le> base_score (permuters ctx ! k)
      \<and> (\<forall>(s, h) \<in> set xs. \<forall>(s', h') \<in> set xs. h = h' \<longrightarrow> s = s')
      \<and> (\<forall>(s, h) \<in> set xs. h \<in> hashes (permuters ctx ! k) \<longrightarrow> best_score (permuters ctx ! k) \<le> s)
    \<longrightarrow> best_score (permuters (fst (snd (process_results api ctx fbs))) ! k)
          = Min (insert (best_score (permuters ctx ! k)) (fst ` set xs)))
   \<and> (k < length (permuters ctx)
    \<longrightarrow> best_score (permuters (fst (snd (process_results api ctx (fbs @ later)))) ! k)
          \<le> best_score (permuters (fst (snd (process_results api ctx fbs))) ! k))
   \<and> (k < length (permuters ctx)
        \<and> best_score (permuters (fst (snd (process_result api ctx k res))) ! k)
            \<noteq> best_score (permuters ctx ! k)
    \<longrightarrow> best_score (permuters (fst (snd (process_result api ctx k res))) ! k)
          \<le> base_score (permuters ctx ! k))"
proof (intro conjI impI)
  assume "snd (snd (process_results api ctx fbs)) = Return found
      \<and> k < length (permuters ctx)
      \<and> map score_hash (target_results k fbs) = map Some xs
      \<and> best_score (permuters ctx ! k) \<le> base_score (permuters ctx ! k)
      \<and> (\<forall>(s, h) \<in> set xs. \<forall>(s', h') \<in> set xs. h = h' \<longrightarrow> s = s')
      \<and> (\<forall>(s, h) \<in> set xs. h \<in> hashes (permuters ctx ! k) \<longrightarrow> best_score (permuters ctx ! k) \<le> s)"
  then show "best_score (permuters (fst (snd (process_results api ctx fbs))) ! k)
          = Min (insert (best_score (permuters ctx ! k)) (fst ` set xs))"
    using best_after_run [of api ctx fbs found k xs] by blast
next
  assume k: "k < length (permuters ctx)"
  let ?c = "fst (snd (process_results api ctx fbs))"
  have k': "k < length (permuters ?c)"
    using k by (simp add: process_results_length)
  show "best_score (permuters (fst (snd (process_results api ctx (fbs @ later)))) ! k)
          \<le> best_score (permuters ?c ! k)"
    unfolding ctx_after_append
    by (cases "snd (snd (process_results api ctx fbs))")
      (simp_all add: process_results_best_le [OF k'])
next
  assume "k < length (permuters ctx)
        \<and> best_score (permuters (fst (snd (process_result api ctx k res))) ! k)
            \<noteq> best_score (permuters ctx ! k)"
  then show "best_score (permuters (fst (snd (process_result api ctx k res))) ! k)
          \<le> base_score (permuters ctx ! k)"
    using post_score_best_bound [of api ctx "permuters ctx ! k" res]
    by (auto simp: process_result_same)
qed

theorem best_score_after_run_witness:
  "best_score (permuters (fst (snd (process_results example_api
       (example_context [example_permuter 100 {} (Enumerated [1])])
       [(0, example_result 90 ''a''), (0, example_result 80 ''b'')]))) ! 0) = 80"
proof -
  let ?ctx = "example_context [example_permuter 100 {} (Enumerated [1])]"
  let ?fbs = "[(0, example_result 90 ''a''), (0, example_result 80 ''b'')]"
  have h1: "snd (snd (process_results example_api ?ctx ?fbs)) = Return False"
    by code_simp
  have h2: "0 < length (permuters ?ctx)"
    by (simp add: example_context_def)
  have h3: "map score_hash (target_results 0 ?fbs) = map Some [(90, ''a''), (80, ''b'')]"
    by (simp add: target_results_def example_result_def)
  have h4: "best_score (permuters ?ctx ! 0) \<le> base_score (permuters ?ctx ! 0)"
    by (simp add: example_context_def example_permuter_def)
  have h5: "\<forall>(s, h) \<in> set [(90::int, ''a''), (80, ''b'')]. \<forall>(s', h') \<in> set [(90, ''a''), (80, ''b'')]. h = h' \<longrightarrow> s = s'"
    by simp
  have h6: "\<forall>(s, h) \<in> set [(90::int, ''a''), (80, ''b'')]. h \<in> hashes (permuters ?ctx ! 0) \<longrightarrow> best_score (permuters ?ctx ! 0) \<le> s"
    by (simp add: example_context_def example_permuter_def)
  have "best_score (permuters (fst (snd (process_results example_api ?ctx ?fbs))) ! 0)
          = Min (insert (best_score (permuters ?ctx ! 0)) (fst ` set [(90::int, ''a''), (80, ''b'')]))"
    using best_score_after_run [of example_api ?ctx ?fbs False 0 "[(90, ''a''), (80, ''b'')]"]
      h1 h2 h3 h4 h5 h6 by blast
  then show ?thesis by (simp add: example_context_def example_permuter_def)
qed

text \<open>
  C2 as stated fails: of two results with the same hash, the second is not
  accepted, so its lower score never becomes the best score.
\<close>

theorem repeated_hash_hides_better_score:
  "best_score (permuters (fst (snd (process_results example_api
       (example_context [example_permuter 100 {} (Enumerated [1])])
       [(0, example_result 90 ''h''), (0, example_result 80 ''h'')]))) ! 0)
   \<noteq> min (base_score (example_permuter 100 {} (Enumerated [1]))) (min 90 80)"
  by code_simp

section \<open>Shutdown accounting\<close>

lemma await_loop_accounting:
  "await_loop api c fbs = (c', rest, e) \<Longrightarrow>
     \<exists>seen. fbs = seen @ rest
       \<and> active_workers c' + count_list seen Finished = active_workers c
       \<and> task_queue c' = task_queue c
       \<and> (e = Loop_left \<longrightarrow> active_workers c' = 0)"
proof (induction fbs arbitrary: c)
  case Nil
  then show ?case by (auto split: if_splits)
next
  case (Cons fb fbs)
  show ?case
  proof (cases "active_workers c > 0")
    case False
    with Cons.prems show ?thesis by auto
  next
    case True
    let ?c1 = "c\<lparr>heartbeats := heartbeats c + 1\<rparr>"
    show ?thesis
    proof (cases fb)
      case NeedMoreWork
      with True Cons.prems have "await_loop api ?c1 fbs = (c', rest, e)" by simp
      from Cons.IH [OF this] obtain seen where "fbs = seen @ rest"
        "active_workers c' + count_list seen Finished = active_workers c"
        "task_queue c' = task_queue c" "e = Loop_left \<longrightarrow> active_workers c' = 0" by auto
      then show ?thesis using NeedMoreWork
        by (intro exI [of _ "fb # seen"]) simp
    next
      case Finished
      with True Cons.prems
      have "await_loop api (?c1\<lparr>active_workers := active_workers ?c1 - 1\<rparr>) fbs = (c', rest, e)"
        by simp
      from Cons.IH [OF this] obtain seen where "fbs = seen @ rest"
        "active_workers c' + count_list seen Finished = active_workers c - 1"
        "task_queue c' = task_queue c" "e = Loop_left \<longrightarrow> active_workers c' = 0" by auto
      then show ?thesis using Finished True
        by (intro exI [of _ "fb # seen"]) simp
    next
      case (Result i res)
      show ?thesis
      proof (cases "stop_on_zero (opts (run_context c)) \<and> found_zero c")
        case True
        with \<open>active_workers c > 0\<close> Result Cons.prems
        have "await_loop api ?c1 fbs = (c', rest, e)" by simp
        from Cons.IH [OF this] obtain seen where "fbs = seen @ rest"
          "active_workers c' + count_list seen Finished = active_workers c"
          "task_queue c' = task_queue c" "e = Loop_left \<longrightarrow> active_workers c' = 0" by auto
        then show ?thesis using Result
          by (intro exI [of _ "fb # seen"]) simp
      next
        case False
        obtain out ctx' r where pr: "process_result api (run_context c) i res = (out, ctx', r)"
          by (cases "process_result api (run_context c) i res") auto
        show ?thesis
        proof (cases r)
          case (Return found)
          with False \<open>active_workers c > 0\<close> Result Cons.prems pr
          have "await_loop api (?c1\<lparr>run_context := ctx', printed := printed ?c1 @ out,
                   found_zero := (found_zero ?c1 \<or> found)\<rparr>) fbs = (c', rest, e)"
            by simp
          from Cons.IH [OF this] obtain seen where "fbs = seen @ rest"
            "active_workers c' + count_list seen Finished = active_workers c"
            "task_queue c' = task_queue c" "e = Loop_left \<longrightarrow> active_workers c' = 0" by auto
          then show ?thesis using Result
            by (intro exI [of _ "fb # seen"]) simp
        next
          case (SysExit n)
          with False \<open>active_workers c > 0\<close> Result Cons.prems pr
          have "c' = ?c1\<lparr>run_context := ctx', printed := printed ?c1 @ out\<rparr>" "rest = fbs"
            "e = Ended (SysExit n)"
            by (simp_all add: ended_def)
          then show ?thesis using Result
            by (intro exI [of _ "[fb]"]) simp
        next
          case (Raise x)
          with False \<open>active_workers c > 0\<close> Result Cons.prems pr
          have "c' = ?c1\<lparr>run_context := ctx', printed := printed ?c1 @ out\<rparr>" "rest = fbs"
            "e = Ended (Raise x)"
            by (simp_all add: ended_def)
          then show ?thesis using Result
            by (intro exI [of _ "[fb]"]) simp
        qed
      qed
    qed
  qed
qed

lemma put_next_task_workers:
  "put_next_task c = Some c' \<Longrightarrow> active_workers c' = active_workers c"
  by (auto simp: put_next_task_def split: option.splits prod.splits)

lemma dispatch_loop_accounting:
  "dispatch_loop api c fbs = (c', rest, e) \<Longrightarrow>
     \<exists>seen. fbs = seen @ rest
       \<and> active_workers c' + count_list seen Finished = active_workers c"
proof (induction fbs arbitrary: c)
  case Nil
  then show ?case by (auto split: if_splits)
next
  case (Cons fb fbs)
  show ?case
  proof (cases "active_workers c > 0")
    case False
    with Cons.prems show ?thesis by auto
  next
    case True
    let ?c1 = "c\<lparr>heartbeats := heartbeats c + 1\<rparr>"
    have step: "\<exists>seen. fb # fbs = seen @ rest
        \<and> active_workers c' + count_list seen Finished = active_workers c"
      if run: "dispatch_loop api d fbs = (c', rest, e)"
        and same: "active_workers d = active_workers c" and nf: "fb \<noteq> Finished" for d
    proof -
      from Cons.IH [OF run] obtain seen where "fbs = seen @ rest"
        "active_workers c' + count_list seen Finished = active_workers d" by auto
      with same nf show ?thesis by (intro exI [of _ "fb # seen"]) simp
    qed
    have stop: "\<exists>seen. fb # fbs = seen @ rest
        \<and> active_workers c' + count_list seen Finished = active_workers c"
      if "rest = fbs" and "active_workers c' = active_workers c" and "fb \<noteq> Finished"
      using that by (intro exI [of _ "[fb]"]) simp
    show ?thesis
    proof (cases fb)
      case NeedMoreWork
      show ?thesis
      proof (cases "put_next_task ?c1")
        case None
        with True NeedMoreWork Cons.prems show ?thesis by (intro stop) auto
      next
        case (Some c2)
        with True NeedMoreWork Cons.prems have "dispatch_loop api c2 fbs = (c', rest, e)" by simp
        moreover have "active_workers c2 = active_workers c"
          using put_next_task_workers [OF Some] by simp
        ultimately show ?thesis using NeedMoreWork step [of c2] by auto
      qed
    next
      case Finished
      with True Cons.prems
      have "dispatch_loop api (?c1\<lparr>active_workers := active_workers ?c1 - 1\<rparr>) fbs = (c', rest, e)"
        by simp
      from Cons.IH [OF this] obtain seen where "fbs = seen @ rest"
        "active_workers c' + count_list seen Finished = active_workers c - 1" by auto
      then show ?thesis using Finished True
        by (intro exI [of _ "fb # seen"]) simp
    next
      case (Result i res)
      obtain out ctx' r where pr: "process_result api (run_context c) i res = (out, ctx', r)"
        by (cases "process_result api (run_context c) i res") auto
      show ?thesis
      proof (cases r)
        case (Return found)
        let ?c2 = "?c1\<lparr>run_context := ctx', printed := printed ?c1 @ out,
                      found_zero := (found_zero ?c1 \<or> found)\<rparr>"
        show ?thesis
        proof (cases "found \<and> stop_on_zero (opts ctx')")
          case True
          with \<open>active_workers c > 0\<close> Result Cons.prems pr Return show ?thesis
            by (intro stop) (auto simp: Let_def)
        next
          case False
          show ?thesis
          proof (cases "put_next_task ?c2")
            case None
            with False \<open>active_workers c > 0\<close> Result Cons.prems pr Return show ?thesis
              by (intro stop) (auto simp: Let_def)
          next
            case (Some c3)
            with False \<open>active_workers c > 0\<close> Result Cons.prems pr Return
            have "dispatch_loop api c3 fbs = (c', rest, e)" by (auto simp: Let_def)
            moreover have "active_workers c3 = active_workers c"
              using put_next_task_workers [OF Some] by simp
            ultimately show ?thesis using Result step [of c3] by auto
          qed
        qed
      next
        case (SysExit n)
        with \<open>active_workers c > 0\<close> Result Cons.prems pr show ?thesis
          by (intro stop) (auto simp: Let_def)
      next
        case (Raise x)
        with \<open>active_workers c > 0\<close> Result Cons.prems pr show ?thesis
          by (intro stop) (auto simp: Let_def)
      qed
    qed
  qed
qed

text \<open>
  C3.  Suppose the dispatch loop is left with \<open>W = active_workers c1\<close> workers active.
  Then what \<^verbatim>\<open>run_inner\<close> puts on the task queue from there on is exactly \<open>W\<close>
  \<^verbatim>\<open>Finished\<close> sentinels; the await loop takes one from the count of active workers
  for each \<^verbatim>\<open>Finished\<close> it reads and for nothing else, and when it is left the count
  is 0 and it has read exactly \<open>W\<close> of them; the dispatch loop counts in the same
  way.  A worker that pulls a \<^verbatim>\<open>Finished\<close> sentinel puts one \<^verbatim>\<open>Finished\<close> on the feedback
  queue and leaves its loop, whatever else the queue would offer.
\<close>

theorem shutdown_accounting:
  assumes "dispatch_loop api c fbs = (c1, rest, Loop_left)"
    and "run_queues api c fbs = (c2, rest2, e)"
  shows "task_queue c2 = task_queue c1 @ replicate (active_workers c1) Finished_task
    \<and> (\<exists>seen. rest = seen @ rest2
          \<and> active_workers c2 + count_list seen Finished = active_workers c1
          \<and> (e = Loop_left \<longrightarrow> active_workers c2 = 0 \<and> count_list seen Finished = active_workers c1))
    \<and> (\<exists>seen. fbs = seen @ rest
          \<and> active_workers c1 + count_list seen Finished = active_workers c)
    \<and> worker_loop try_eval perms should_block (Avail (Some Finished_task) # pulls)
        = ([Finished], Left_loop)"
proof -
  from assms have aw: "await_loop api (signal_workers c1) rest = (c2, rest2, e)"
    by (simp add: run_queues_def)
  from await_loop_accounting [OF aw] obtain seen where seen: "rest = seen @ rest2"
    "active_workers c2 + count_list seen Finished = active_workers (signal_workers c1)"
    "task_queue c2 = task_queue (signal_workers c1)" "e = Loop_left \<longrightarrow> active_workers c2 = 0"
    by auto
  have 1: "task_queue c2 = task_queue c1 @ replicate (active_workers c1) Finished_task"
    using seen(3) by (simp add: signal_workers_def)
  have 2: "\<exists>seen. rest = seen @ rest2
          \<and> active_workers c2 + count_list seen Finished = active_workers c1
          \<and> (e = Loop_left \<longrightarrow> active_workers c2 = 0 \<and> count_list seen Finished = active_workers c1)"
    using seen(1,2,4) by (intro exI [of _ seen]) (auto simp: signal_workers_def)
  have 3: "\<exists>seen. fbs = seen @ rest
          \<and> active_workers c1 + count_list seen Finished = active_workers c"
    using dispatch_loop_accounting [OF assms(1)] .
  have 4: "worker_loop try_eval perms should_block (Avail (Some Finished_task) # pulls)
        = ([Finished], Left_loop)"
    by simp
  from 1 2 3 4 show ?thesis by blast
qed

theorem shutdown_accounting_witness:
  "task_queue (fst (run_queues example_api
       (example_coordinator 2 [example_permuter 100 {} (Enumerated [1])])
       [NeedMoreWork, NeedMoreWork, Finished, Finished]))
     = [Task 0 1, Finished_task, Finished_task]
   \<and> snd (snd (run_queues example_api
       (example_coordinator 2 [example_permuter 100 {} (Enumerated [1])])
       [NeedMoreWork, NeedMoreWork, Finished, Finished])) = Loop_left"
proof -
  let ?c = "example_coordinator 2 [example_permuter 100 {} (Enumerated [1])]"
  let ?fbs = "[NeedMoreWork, NeedMoreWork, Finished, Finished] :: (unit, unit) feedback list"
  let ?d = "dispatch_loop example_api ?c ?fbs"
  let ?r = "run_queues example_api ?c ?fbs"
  have left: "snd (snd ?d) = Loop_left" by code_simp
  have tq: "task_queue (fst ?d) = [Task 0 1]" by code_simp
  have aw: "active_workers (fst ?d) = 2" by code_simp
  have e: "snd (snd ?r) = Loop_left" by code_simp
  have h1: "?d = (fst ?d, fst (snd ?d), Loop_left)"
    using left by (metis prod.collapse)
  have h2: "?r = (fst ?r, fst (snd ?r), snd (snd ?r))" by simp
  from shutdown_accounting [OF h1 h2, of "\<lambda>p s. EvalError [] None" "[]" False "[]"]
  have "task_queue (fst ?r) = task_queue (fst ?d) @ replicate (active_workers (fst ?d)) Finished_task"
    by blast
  with tq aw e show ?thesis by (simp add: numeral_2_eq_2)
qed


section \<open>The worker on an empty queue\<close>

text \<open>
  C4 fails on the code.  The first pull of a worker is not blocking; when it
  finds the queue empty, \<^verbatim>\<open>get\<close> raises \<^verbatim>\<open>queue.Empty\<close>, which the loop does not
  catch: the worker ends without putting \<^verbatim>\<open>NeedMoreWork\<close> on the feedback queue.
\<close>

theorem worker_crashes_on_empty_queue:
  "multiprocess_worker try_eval perms (Empty # pulls) = ([], Escaped QueueEmpty)"
  by (simp add: multiprocess_worker_def)


section \<open>The generator, one item at a time\<close>

lemma iter_next_None: "iter_next it = None \<longleftrightarrow> it = ListIter []"
  by (cases it rule: iter_next.cases) auto

lemma map_of_split_upd:
  assumes "distinct (map fst (pre @ (t, a) # post))"
  shows "map_of (pre @ (t, b) # post) u = (if u = t then Some b else map_of (pre @ (t, a) # post) u)"
proof -
  from assms have "t \<notin> fst ` set pre" by auto
  then have "map_of pre t = None" by (simp add: map_of_eq_None_iff)
  then show ?thesis by (auto simp: map_add_def split: option.splits)
qed

lemma map_of_split_del:
  assumes "distinct (map fst (pre @ (t, a) # post))"
  shows "map_of (pre @ post) u = (if u = t then None else map_of (pre @ (t, a) # post) u)"
proof -
  from assms have "t \<notin> fst ` set pre" "t \<notin> fst ` set post" by auto
  then have "map_of pre t = None" "map_of post t = None" by (simp_all add: map_of_eq_None_iff)
  then show ?thesis by (auto simp: map_add_def split: option.splits)
qed

lemma split_at:
  assumes "j < length its"
  shows "its = take j its @ (fst (its ! j), snd (its ! j)) # drop (Suc j) its"
  using assms by (simp add: id_take_nth_drop)

lemma remaining_at:
  assumes "distinct (map fst its)" and "j < length its"
  shows "remaining (fst (its ! j)) its = snd (its ! j)"
proof -
  from assms(2) have "(fst (its ! j), snd (its ! j)) \<in> set its" by simp
  with assms(1) have "map_of its (fst (its ! j)) = Some (snd (its ! j))" by simp
  then show ?thesis by (simp add: remaining_def)
qed

lemma remaining_del_at:
  assumes "distinct (map fst its)" and "j < length its" and "iter_next (snd (its ! j)) = None"
  shows "remaining u (del_at j its) = remaining u its"
proof -
  let ?pre = "take j its" and ?post = "drop (Suc j) its"
  have its: "its = ?pre @ (fst (its ! j), snd (its ! j)) # ?post"
    using assms(2) by (rule split_at)
  have d: "distinct (map fst (?pre @ (fst (its ! j), snd (its ! j)) # ?post))"
    using assms(1) its by simp
  have ex: "snd (its ! j) = ListIter []"
    using assms(3) by (simp add: iter_next_None)
  have "map_of (del_at j its) u = (if u = fst (its ! j) then None else map_of its u)"
    unfolding del_at_def using map_of_split_del [OF d, of u] its by simp
  moreover have "remaining (fst (its ! j)) its = ListIter []"
    using remaining_at [OF assms(1,2)] ex by simp
  ultimately show ?thesis by (simp add: remaining_def)
qed

lemma remaining_update:
  assumes "distinct (map fst its)" and "j < length its"
  shows "remaining u (its[j := (fst (its ! j), it)])
           = (if u = fst (its ! j) then it else remaining u its)"
proof -
  let ?pre = "take j its" and ?post = "drop (Suc j) its"
  have its: "its = ?pre @ (fst (its ! j), snd (its ! j)) # ?post"
    using assms(2) by (rule split_at)
  have d: "distinct (map fst (?pre @ (fst (its ! j), snd (its ! j)) # ?post))"
    using assms(1) its by simp
  have "its[j := (fst (its ! j), it)] = ?pre @ (fst (its ! j), it) # ?post"
    using assms(2) by (simp add: upd_conv_take_nth_drop)
  then have "map_of (its[j := (fst (its ! j), it)]) u
      = (if u = fst (its ! j) then Some it else map_of its u)"
    using map_of_split_upd [OF d, of it u] its by simp
  then show ?thesis by (simp add: remaining_def)
qed

lemma distinct_take_drop:
  assumes "distinct xs"
  shows "distinct (take j xs @ drop (Suc j) xs)"
proof -
  from assms have "distinct (take j xs @ drop j xs)" by simp
  then have disj: "set (take j xs) \<inter> set (drop j xs) = {}"
    unfolding distinct_append by blast
  have "set (drop (Suc j) xs) \<subseteq> set (drop j xs)"
    by (rule set_drop_subset_set_drop) simp
  with disj have "set (take j xs) \<inter> set (drop (Suc j) xs) = {}" by blast
  with assms show ?thesis by simp
qed

lemma distinct_del_at: "distinct (map fst its) \<Longrightarrow> distinct (map fst (del_at j its))"
  using distinct_take_drop [of "map fst its" j] by (simp add: del_at_def take_map drop_map)

lemma map_fst_update: "j < length its \<Longrightarrow> map fst (its[j := (fst (its ! j), it)]) = map fst its"
  by (simp add: map_update list_update_same_conv)

lemma index_in_range: "its \<noteq> [] \<Longrightarrow> nat (i mod int (length its)) < length its"
proof -
  assume "its \<noteq> []"
  then have "0 \<le> i mod int (length its)" and "i mod int (length its) < int (length its)"
    by simp_all
  then show ?thesis by linarith
qed

lemma cycle_next_step:
  "distinct (map fst its) \<Longrightarrow> cycle_next (its, i) = Some ((t, s), (its', i')) \<Longrightarrow>
     distinct (map fst its') \<and> iter_next (remaining t its) = Some (s, remaining t its')
       \<and> (\<forall>u. u \<noteq> t \<longrightarrow> remaining u its' = remaining u its)"
proof (induction "(its, i)" arbitrary: its i rule: cycle_next.induct)
  case (1 its i)
  from "1.prems"(2) have ne: "its \<noteq> []"
    by (subst (asm) cycle_next.simps) (auto split: if_splits)
  let ?j = "nat (i mod int (length its))"
  have j: "?j < length its" using ne by (rule index_in_range)
  show ?case
  proof (cases "iter_next (snd (its ! ?j))")
    case None
    with "1.prems"(2) ne have rec: "cycle_next (del_at ?j its, int ?j - 1) = Some ((t, s), (its', i'))"
      by (subst (asm) cycle_next.simps) (simp add: Let_def)
    have d: "distinct (map fst (del_at ?j its))"
      using "1.prems"(1) by (rule distinct_del_at)
    from "1.hyps" [OF ne refl None d rec]
    show ?thesis
      by (simp add: remaining_del_at [OF "1.prems"(1) j None])
  next
    case (Some p)
    obtain sd it where p: "p = (sd, it)" by (cases p)
    with Some "1.prems"(2) ne
    have res: "t = fst (its ! ?j)" "s = sd" "its' = its[?j := (fst (its ! ?j), it)]"
      by (subst (asm) cycle_next.simps; simp add: Let_def)+
    have "distinct (map fst its')"
      using "1.prems"(1) j by (simp add: res map_fst_update)
    moreover have "iter_next (remaining t its) = Some (s, remaining t its')"
      using Some p
      by (simp add: res remaining_at [OF "1.prems"(1) j] remaining_update [OF "1.prems"(1) j])
    moreover have "\<forall>u. u \<noteq> t \<longrightarrow> remaining u its' = remaining u its"
      by (simp add: res remaining_update [OF "1.prems"(1) j])
    ultimately show ?thesis by blast
  qed
qed

lemma cycle_next_end:
  "distinct (map fst its) \<Longrightarrow> cycle_next (its, i) = None \<Longrightarrow> remaining u its = ListIter []"
proof (induction "(its, i)" arbitrary: its i rule: cycle_next.induct)
  case (1 its i)
  show ?case
  proof (cases "its = []")
    case True
    then show ?thesis by (simp add: remaining_def)
  next
    case ne: False
    let ?j = "nat (i mod int (length its))"
    have j: "?j < length its" using ne by (rule index_in_range)
    show ?thesis
    proof (cases "iter_next (snd (its ! ?j))")
      case None
      with "1.prems"(2) ne have rec: "cycle_next (del_at ?j its, int ?j - 1) = None"
        by (subst (asm) cycle_next.simps) (simp add: Let_def)
      have d: "distinct (map fst (del_at ?j its))"
        using "1.prems"(1) by (rule distinct_del_at)
      from "1.hyps" [OF ne refl None d rec]
      show ?thesis
        by (simp add: remaining_del_at [OF "1.prems"(1) j None])
    next
      case (Some p)
      with "1.prems"(2) ne show ?thesis
        by (subst (asm) cycle_next.simps) (simp add: Let_def split: prod.splits)
    qed
  qed
qed


lemma gen_take_Suc:
  "gen_take (Suc n) st =
     (case cycle_next st of None \<Rightarrow> [] | Some (item, st') \<Rightarrow> item # gen_take n st')"
  by simp

lemma gen_forced_items:
  assumes "distinct (map fst its)"
    and "\<forall>u. remaining u its = ListIter [] \<or> remaining u its = ListIter [v]
           \<or> remaining u its = Endless (\<lambda>n. v)"
    and "\<forall>u. N \<le> u \<longrightarrow> remaining u its = ListIter []"
  shows "\<forall>item \<in> set (gen_take n (its, i)). snd item = v \<and> fst item < N"
  using assms
proof (induction n arbitrary: its i)
  case 0
  show ?case by simp
next
  case (Suc n)
  show ?case
  proof (cases "cycle_next (its, i)")
    case None
    then show ?thesis by simp
  next
    case (Some r)
    obtain t s its' i' where r: "r = ((t, s), (its', i'))" by (cases r) auto
    from cycle_next_step [OF Suc.prems(1) Some [unfolded r]]
    have d: "distinct (map fst its')"
      and nx: "iter_next (remaining t its) = Some (s, remaining t its')"
      and oth: "\<forall>u. u \<noteq> t \<longrightarrow> remaining u its' = remaining u its" by auto
    from Suc.prems(2) have "remaining t its = ListIter [] \<or> remaining t its = ListIter [v]
           \<or> remaining t its = Endless (\<lambda>n. v)" by blast
    with nx have sv: "s = v"
      and rt: "remaining t its' = ListIter [] \<or> remaining t its' = Endless (\<lambda>n. v)"
      by auto
    have tN: "t < N"
    proof (rule ccontr)
      assume "\<not> t < N"
      with Suc.prems(3) have "remaining t its = ListIter []" by simp
      with nx show False by simp
    qed
    have inv2: "\<forall>u. remaining u its' = ListIter [] \<or> remaining u its' = ListIter [v]
           \<or> remaining u its' = Endless (\<lambda>n. v)"
    proof
      fix u show "remaining u its' = ListIter [] \<or> remaining u its' = ListIter [v]
           \<or> remaining u its' = Endless (\<lambda>n. v)"
        using rt oth Suc.prems(2) by (cases "u = t") auto
    qed
    have inv3: "\<forall>u. N \<le> u \<longrightarrow> remaining u its' = ListIter []"
      using oth Suc.prems(3) tN by auto
    from Suc.IH [OF d inv2 inv3, of i'] sv tN Some r show ?thesis by simp
  qed
qed

lemma gen_never_ends:
  assumes "distinct (map fst its)" and "remaining u its = Endless f"
  shows "length (gen_take n (its, i)) = n"
  using assms
proof (induction n arbitrary: its i f)
  case 0
  show ?case by simp
next
  case (Suc n)
  show ?case
  proof (cases "cycle_next (its, i)")
    case None
    from cycle_next_end [OF Suc.prems(1) None, of u] Suc.prems(2) show ?thesis by simp
  next
    case (Some r)
    obtain t s its' i' where r: "r = ((t, s), (its', i'))" by (cases r) auto
    from cycle_next_step [OF Suc.prems(1) Some [unfolded r]]
    have d: "distinct (map fst its')"
      and nx: "iter_next (remaining t its) = Some (s, remaining t its')"
      and oth: "\<forall>u. u \<noteq> t \<longrightarrow> remaining u its' = remaining u its" by auto
    have "\<exists>g. remaining u its' = Endless g"
    proof (cases "u = t")
      case True
      with nx Suc.prems(2) have "remaining u its' = Endless (\<lambda>n. f (Suc n))" by simp
      then show ?thesis by blast
    next
      case False
      with oth Suc.prems(2) show ?thesis by simp
    qed
    then obtain g where "remaining u its' = Endless g" ..
    from Suc.IH [OF d this, of i'] Some r show ?thesis by simp
  qed
qed

lemma gen_take_projection:
  assumes "distinct (map fst its)" and "remaining u its = ListIter xs"
  shows "\<exists>m. map snd (filter (\<lambda>x. fst x = u) (gen_take n (its, i))) = take m xs"
  using assms
proof (induction n arbitrary: its i xs)
  case 0
  show ?case by (intro exI [of _ 0]) simp
next
  case (Suc n)
  show ?case
  proof (cases "cycle_next (its, i)")
    case None
    then show ?thesis by (intro exI [of _ 0]) simp
  next
    case (Some r)
    obtain t s its' i' where r: "r = ((t, s), (its', i'))" by (cases r) auto
    from cycle_next_step [OF Suc.prems(1) Some [unfolded r]]
    have d: "distinct (map fst its')"
      and nx: "iter_next (remaining t its) = Some (s, remaining t its')"
      and oth: "\<forall>u. u \<noteq> t \<longrightarrow> remaining u its' = remaining u its" by auto
    show ?thesis
    proof (cases "u = t")
      case True
      with nx Suc.prems(2) obtain xs' where xs: "xs = s # xs'" and r': "remaining u its' = ListIter xs'"
        by (cases xs) auto
      from Suc.IH [OF d r', of i'] obtain m
        where "map snd (filter (\<lambda>x. fst x = u) (gen_take n (its', i'))) = take m xs'" ..
      with True Some r xs show ?thesis by (intro exI [of _ "Suc m"]) simp
    next
      case False
      with oth Suc.prems(2) have r': "remaining u its' = ListIter xs" by simp
      from Suc.IH [OF d r', of i'] obtain m
        where "map snd (filter (\<lambda>x. fst x = u) (gen_take n (its', i'))) = take m xs" ..
      with False Some r show ?thesis by (intro exI [of _ m]) simp
    qed
  qed
qed

lemma cycle_next_emit:
  assumes "j < length its" and "iter_next (snd (its ! j)) = Some (s, it)"
  shows "cycle_next (its, int j) = Some ((fst (its ! j), s), (its[j := (fst (its ! j), it)], int j + 1))"
proof -
  from assms(1) have "its \<noteq> []" by auto
  moreover from assms(1) have "nat (int j mod int (length its)) = j" by simp
  ultimately show ?thesis using assms(2)
    by (subst cycle_next.simps) (simp add: Let_def)
qed

lemma gen_first_round:
  assumes "j + m \<le> length its"
    and "\<forall>k. j \<le> k \<and> k < length its \<longrightarrow> fst (its ! k) = k \<and> (\<exists>it. iter_next (snd (its ! k)) = Some (v, it))"
  shows "gen_take m (its, int j) = map (\<lambda>k. (k, v)) [j..<j + m]"
  using assms
proof (induction m arbitrary: its j)
  case 0
  show ?case by simp
next
  case (Suc m)
  from Suc.prems(1) have j: "j < length its" by simp
  with Suc.prems(2) obtain it where tag: "fst (its ! j) = j"
    and nx: "iter_next (snd (its ! j)) = Some (v, it)" by blast
  let ?its = "its[j := (j, it)]"
  have step: "cycle_next (its, int j) = Some ((j, v), (?its, int (Suc j)))"
    using cycle_next_emit [OF j nx] tag by simp
  have len: "Suc j + m \<le> length ?its" using Suc.prems(1) by simp
  have inv: "\<forall>k. Suc j \<le> k \<and> k < length ?its \<longrightarrow>
      fst (?its ! k) = k \<and> (\<exists>it. iter_next (snd (?its ! k)) = Some (v, it))"
    using Suc.prems(2) by auto
  have "gen_take m (?its, int (Suc j)) = map (\<lambda>k. (k, v)) [Suc j..<Suc j + m]"
    using Suc.IH [OF len inv] .
  with step show ?case by (simp add: upt_rec [of j])
qed

lemma gen_take_take: "take m (gen_take n st) = gen_take (min m n) st"
proof (induction n arbitrary: m st)
  case 0
  show ?case by simp
next
  case (Suc n)
  show ?case
  proof (cases m)
    case 0
    then show ?thesis by simp
  next
    case (Suc m')
    then show ?thesis using Suc.IH by (simp split: option.splits)
  qed
qed


section \<open>The forced seed in the generator\<close>

lemma seed_iterators_length: "length (seed_iterators perms forced) = length perms"
  by (simp add: seed_iterators_def)

lemma seed_iterators_nth:
  "k < length perms \<Longrightarrow> seed_iterators perms forced ! k = (k, seed_iterator forced (perms ! k))"
  by (simp add: seed_iterators_def nth_enumerate_eq)

lemma seed_iterators_tags: "map fst (seed_iterators perms forced) = [0..<length perms]"
proof -
  have "map fst (seed_iterators perms forced) = map fst (enumerate 0 perms)"
    by (simp add: seed_iterators_def case_prod_beta comp_def)
  then show ?thesis by (simp add: map_fst_enumerate)
qed

lemma seed_iterators_distinct: "distinct (map fst (seed_iterators perms forced))"
  by (simp add: seed_iterators_tags)

lemma remaining_start:
  "remaining u (seed_iterators perms forced)
     = (if u < length perms then seed_iterator forced (perms ! u) else ListIter [])"
proof (cases "u < length perms")
  case True
  then have "u < length (seed_iterators perms forced)" by (simp add: seed_iterators_length)
  from remaining_at [OF seed_iterators_distinct this] True show ?thesis
    by (simp add: seed_iterators_nth)
next
  case False
  then have "u \<notin> set (map fst (seed_iterators perms forced))"
    by (simp add: seed_iterators_tags)
  then have "map_of (seed_iterators perms forced) u = None"
    by (simp add: map_of_eq_None_iff)
  with False show ?thesis by (simp add: remaining_def)
qed

lemma forced_iterator:
  "v \<noteq> 0 \<Longrightarrow> seed_iterator (Some v) p
     = (if is_random (permutations p) then Endless (\<lambda>n. v) else ListIter [v])"
  by (simp add: seed_iterator_def)

lemma forced_first_round:
  assumes "v \<noteq> 0" and "m \<le> length perms"
  shows "gen_take m (cycle_seeds perms (Some v)) = map (\<lambda>k. (k, v)) [0..<m]"
proof -
  let ?its = "seed_iterators perms (Some v)"
  have "\<forall>k. 0 \<le> k \<and> k < length ?its \<longrightarrow>
      fst (?its ! k) = k \<and> (\<exists>it. iter_next (snd (?its ! k)) = Some (v, it))"
    using assms(1) by (simp add: seed_iterators_length seed_iterators_nth forced_iterator)
  moreover have "0 + m \<le> length ?its" using assms(2) by (simp add: seed_iterators_length)
  ultimately have "gen_take m (?its, int 0) = map (\<lambda>k. (k, v)) [0..<0 + m]"
    by (rule gen_first_round [rotated])
  then show ?thesis by (simp add: cycle_seeds_def)
qed

lemma count_le_tagged: "count_list xs (k, v) \<le> length (filter (\<lambda>x. fst x = k) xs)"
  by (induction xs) auto

lemma forced_once:
  assumes "v \<noteq> 0" and "k < length perms" and "\<not> is_random (permutations (perms ! k))"
  shows "count_list (gen_take n (cycle_seeds perms (Some v))) (k, v) = (if k < n then 1 else 0)"
proof -
  let ?its = "seed_iterators perms (Some v)"
  let ?out = "gen_take n (cycle_seeds perms (Some v))"
  have rem: "remaining k ?its = ListIter [v]"
    using assms by (simp add: remaining_start forced_iterator)
  from gen_take_projection [OF seed_iterators_distinct rem, of n 0] obtain m
    where "map snd (filter (\<lambda>x. fst x = k) ?out) = take m [v]"
    by (auto simp: cycle_seeds_def)
  then have "length (filter (\<lambda>x. fst x = k) ?out) = length (take m [v])"
    by (metis length_map)
  then have "length (filter (\<lambda>x. fst x = k) ?out) \<le> 1" by simp
  with count_le_tagged [of ?out k v] have le: "count_list ?out (k, v) \<le> 1" by simp
  show ?thesis
  proof (cases "k < n")
    case True
    have "take (Suc k) ?out = gen_take (Suc k) (cycle_seeds perms (Some v))"
      using True by (simp add: gen_take_take min_def)
    also have "\<dots> = map (\<lambda>j. (j, v)) [0..<Suc k]"
      using assms(1,2) by (intro forced_first_round) simp_all
    finally have "(k, v) \<in> set (take (Suc k) ?out)" by simp
    then have "(k, v) \<in> set ?out" by (rule in_set_takeD)
    then have "count_list ?out (k, v) \<noteq> 0" by (simp add: count_list_0_iff)
    with le True show ?thesis by simp
  next
    case False
    then have "n \<le> length perms" using assms(2) by simp
    with assms(1) have "?out = map (\<lambda>j. (j, v)) [0..<n]" by (rule forced_first_round)
    with False have "(k, v) \<notin> set ?out" by auto
    then have "count_list ?out (k, v) = 0" by (simp add: count_list_0_iff)
    with False show ?thesis by simp
  qed
qed

lemma forced_items:
  assumes "v \<noteq> 0"
  shows "\<forall>item \<in> set (gen_take n (cycle_seeds perms (Some v))). snd item = v \<and> fst item < length perms"
  unfolding cycle_seeds_def
  using assms
  by (intro gen_forced_items seed_iterators_distinct) (simp_all add: remaining_start forced_iterator)

lemma forced_never_ends:
  assumes "v \<noteq> 0" and "k < length perms" and "is_random (permutations (perms ! k))"
  shows "length (gen_take n (cycle_seeds perms (Some v))) = n"
proof -
  have "remaining k (seed_iterators perms (Some v)) = Endless (\<lambda>n. v)"
    using assms by (simp add: remaining_start forced_iterator)
  from gen_never_ends [OF seed_iterators_distinct this] show ?thesis
    by (simp add: cycle_seeds_def)
qed

lemma parse_5_10: "parse_force_seed (Some ''5,10'') = Inr (Some 10, Some 5)"
  by code_simp

text \<open>
  C6, as the code has it.  The argument \<open>5,10\<close> is parsed into \<^verbatim>\<open>force_seed = 5\<close> and
  \<^verbatim>\<open>force_rng_seed = 10\<close>: the first component is the seed, the second the rng
  seed.  With it, every pair that the generator emits has seed 5.  The iterator of a
  randomized target is \<^verbatim>\<open>itertools.repeat(5)\<close>: each turn yields 5 and leaves the
  iterator as it was, and the generator never ends.  The iterator of a
  deterministic target is the list \<open>[5]\<close>: the target emits the seed 5 exactly once,
  in the first round.
\<close>

theorem forced_seed_replay:
  "start_seeds (options\<lparr>force_seed := Some ''5,10''\<rparr>) perms = Inr (cycle_seeds perms (Some 5))
   \<and> parse_force_seed (Some ''5,10'') = Inr (Some 10, Some 5)
   \<and> (\<forall>item \<in> set (gen_take n (cycle_seeds perms (Some 5))). snd item = 5 \<and> fst item < length perms)
   \<and> (k < length perms \<and> is_random (permutations (perms ! k)) \<longrightarrow>
        seed_iterator (Some 5) (perms ! k) = Endless (\<lambda>n. 5)
        \<and> iter_next (Endless (\<lambda>n. 5)) = Some (5, Endless (\<lambda>n. 5))
        \<and> length (gen_take n (cycle_seeds perms (Some 5))) = n)
   \<and> (k < length perms \<and> \<not> is_random (permutations (perms ! k)) \<longrightarrow>
        seed_iterator (Some 5) (perms ! k) = ListIter [5]
        \<and> count_list (gen_take n (cycle_seeds perms (Some 5))) (k, 5) = (if k < n then 1 else 0))"
proof (intro conjI impI)
  show "start_seeds (options\<lparr>force_seed := Some ''5,10''\<rparr>) perms = Inr (cycle_seeds perms (Some 5))"
    by (simp add: start_seeds_def parse_5_10)
  show "parse_force_seed (Some ''5,10'') = Inr (Some 10, Some 5)" by (rule parse_5_10)
  show "\<forall>item \<in> set (gen_take n (cycle_seeds perms (Some 5))). snd item = 5 \<and> fst item < length perms"
    by (rule forced_items) simp
next
  assume "k < length perms \<and> is_random (permutations (perms ! k))"
  then show "seed_iterator (Some 5) (perms ! k) = Endless (\<lambda>n. 5)"
    by (simp add: forced_iterator)
next
  show "iter_next (Endless (\<lambda>n. 5)) = Some (5, Endless (\<lambda>n. 5))" by simp
next
  assume "k < length perms \<and> is_random (permutations (perms ! k))"
  then show "length (gen_take n (cycle_seeds perms (Some 5))) = n"
    using forced_never_ends [of 5 k perms n] by simp
next
  assume "k < length perms \<and> \<not> is_random (permutations (perms ! k))"
  then show "seed_iterator (Some 5) (perms ! k) = ListIter [5]"
    by (simp add: forced_iterator)
next
  assume "k < length perms \<and> \<not> is_random (permutations (perms ! k))"
  then show "count_list (gen_take n (cycle_seeds perms (Some 5))) (k, 5) = (if k < n then 1 else 0)"
    using forced_once [of 5 k perms n] by simp
qed

theorem forced_seed_replay_witness:
  "length (gen_take 4 (cycle_seeds
       [example_permuter 100 {} (Randomized (\<lambda>n. int n)), example_permuter 100 {} (Enumerated [1, 2])]
       (Some 5))) = 4
   \<and> count_list (gen_take 4 (cycle_seeds
       [example_permuter 100 {} (Randomized (\<lambda>n. int n)), example_permuter 100 {} (Enumerated [1, 2])]
       (Some 5))) (1, 5) = 1"
  using forced_seed_replay [of example_options
      "[example_permuter 100 {} (Randomized (\<lambda>n. int n)), example_permuter 100 {} (Enumerated [1, 2])]"
      4 0]
    forced_seed_replay [of example_options
      "[example_permuter 100 {} (Randomized (\<lambda>n. int n)), example_permuter 100 {} (Enumerated [1, 2])]"
      4 1]
  by (simp add: example_permuter_def)

text \<open>
  C6 as stated fails: with the argument \<open>5,10\<close> a randomized target emits the seed 5
  on every turn, not 10.
\<close>

theorem forced_seed_is_first_component:
  "(case start_seeds (example_options\<lparr>force_seed := Some ''5,10''\<rparr>)
           [example_permuter 100 {} (Randomized (\<lambda>n. int n))] of
      Inl e \<Rightarrow> []
    | Inr g \<Rightarrow> map snd (gen_take 3 g)) = [5, 5, 5]
   \<and> (case start_seeds (example_options\<lparr>force_seed := Some ''5,10''\<rparr>)
           [example_permuter 100 {} (Randomized (\<lambda>n. int n))] of
      Inl e \<Rightarrow> []
    | Inr g \<Rightarrow> map snd (gen_take 3 g)) \<noteq> [10, 10, 10]"
  by code_simp

section \<open>Finite seed spaces: every seed is emitted once\<close>

text \<open>
  When every seed space is an enumerated list and no seed is forced, the generator
  ends after as many items as there are seeds, and the pairs it emits for a target
  are the target's seeds, each once and in their order.  The order in which the
  targets take their turns is another matter (see below).
\<close>

lemma sum_Suc_at:
  fixes f g :: "nat \<Rightarrow> nat"
  assumes "t < N" and "f t = Suc (g t)" and "\<forall>u. u \<noteq> t \<longrightarrow> g u = f u"
  shows "(\<Sum>u<N. f u) = Suc (\<Sum>u<N. g u)"
proof -
  have "(\<Sum>u<N. f u) = f t + (\<Sum>u\<in>{..<N} - {t}. f u)"
    using assms(1) by (intro sum.remove) simp_all
  moreover have "(\<Sum>u<N. g u) = g t + (\<Sum>u\<in>{..<N} - {t}. g u)"
    using assms(1) by (intro sum.remove) simp_all
  moreover have "(\<Sum>u\<in>{..<N} - {t}. g u) = (\<Sum>u\<in>{..<N} - {t}. f u)"
    using assms(3) by (intro sum.cong) auto
  ultimately show ?thesis using assms(2) by simp
qed

lemma gen_length_finite:
  assumes "distinct (map fst its)"
    and "\<forall>u. \<exists>xs. remaining u its = ListIter xs"
    and "\<forall>u. N \<le> u \<longrightarrow> remaining u its = ListIter []"
  shows "length (gen_take n (its, i))
           = min n (\<Sum>u<N. length (finite_seeds (remaining u its)))
         \<and> (\<forall>item \<in> set (gen_take n (its, i)). fst item < N)"
  using assms
proof (induction n arbitrary: its i)
  case 0
  show ?case by simp
next
  case (Suc n)
  show ?case
  proof (cases "cycle_next (its, i)")
    case None
    have "\<forall>u. remaining u its = ListIter []"
      using cycle_next_end [OF Suc.prems(1) None] by simp
    with None show ?thesis by simp
  next
    case (Some r)
    obtain t s its' i' where r: "r = ((t, s), (its', i'))" by (cases r) auto
    from cycle_next_step [OF Suc.prems(1) Some [unfolded r]]
    have d: "distinct (map fst its')"
      and nx: "iter_next (remaining t its) = Some (s, remaining t its')"
      and oth: "\<forall>u. u \<noteq> t \<longrightarrow> remaining u its' = remaining u its" by auto
    from Suc.prems(2) obtain xs where xs: "remaining t its = ListIter xs" by blast
    with nx obtain xs' where xs': "xs = s # xs'" "remaining t its' = ListIter xs'"
      by (cases xs) auto
    have tN: "t < N"
    proof (rule ccontr)
      assume "\<not> t < N"
      with Suc.prems(3) have "remaining t its = ListIter []" by simp
      with nx show False by simp
    qed
    have fin: "\<forall>u. \<exists>xs. remaining u its' = ListIter xs"
    proof
      fix u show "\<exists>xs. remaining u its' = ListIter xs"
        using xs'(2) oth Suc.prems(2) by (cases "u = t") auto
    qed
    have out: "\<forall>u. N \<le> u \<longrightarrow> remaining u its' = ListIter []"
      using oth Suc.prems(3) tN by auto
    have total: "(\<Sum>u<N. length (finite_seeds (remaining u its)))
        = Suc (\<Sum>u<N. length (finite_seeds (remaining u its')))"
      using tN oth by (intro sum_Suc_at [where t = t]) (simp_all add: xs xs')
    from Suc.IH [OF d fin out, of i'] total tN Some r show ?thesis by simp
  qed
qed

lemma length_by_tag:
  fixes xs :: "(nat \<times> 'b) list"
  shows "\<forall>x \<in> set xs. fst x < N \<Longrightarrow>
     length xs = (\<Sum>k<N. length (filter (\<lambda>x. fst x = k) xs))"
proof (induction xs)
  case Nil
  show ?case by simp
next
  case (Cons x xs)
  then have xN: "fst x < N" and rest: "\<forall>x \<in> set xs. fst x < N" by simp_all
  have "(\<Sum>k<N. length (filter (\<lambda>y. fst y = k) (x # xs)))
      = Suc (\<Sum>k<N. length (filter (\<lambda>y. fst y = k) xs))"
    using xN by (intro sum_Suc_at [where t = "fst x"]) auto
  with Cons.IH [OF rest] show ?case by simp
qed

lemma sum_le_eq:
  fixes a b :: "nat \<Rightarrow> nat"
  assumes "\<forall>k<N. a k \<le> b k" and "(\<Sum>k<N. a k) = (\<Sum>k<N. b k)" and "k < N"
  shows "a k = b k"
proof (rule ccontr)
  assume "a k \<noteq> b k"
  with assms(1,3) have "a k < b k" by (simp add: le_neq_implies_less)
  moreover have "\<forall>j\<in>{..<N}. a j \<le> b j" using assms(1) by simp
  ultimately have "(\<Sum>k<N. a k) < (\<Sum>k<N. b k)"
    using assms(3) by (intro sum_strict_mono_ex1) auto
  with assms(2) show False by simp
qed

lemma remaining_enumerated:
  assumes "\<forall>k<length perms. permutations (perms ! k) = Enumerated (spaces ! k)"
  shows "remaining u (seed_iterators perms None)
           = (if u < length perms then ListIter (spaces ! u) else ListIter [])"
  using assms by (simp add: remaining_start seed_iterator_def)

lemma finite_spaces_all_emitted:
  assumes "length spaces = length perms"
    and "\<forall>k<length perms. permutations (perms ! k) = Enumerated (spaces ! k)"
  shows "length (gen_take n (cycle_seeds perms None)) = min n (sum_list (map length spaces))"
    and "sum_list (map length spaces) \<le> n \<Longrightarrow> k < length perms \<Longrightarrow>
           map snd (filter (\<lambda>x. fst x = k) (gen_take n (cycle_seeds perms None))) = spaces ! k"
proof -
  let ?its = "seed_iterators perms None"
  let ?out = "gen_take n (cycle_seeds perms None)"
  let ?N = "length perms"
  have rem: "remaining u ?its = (if u < ?N then ListIter (spaces ! u) else ListIter [])" for u
    using assms(2) by (rule remaining_enumerated)
  have total: "(\<Sum>u<?N. length (finite_seeds (remaining u ?its))) = sum_list (map length spaces)"
  proof -
    have "(\<Sum>u<?N. length (finite_seeds (remaining u ?its))) = (\<Sum>u<?N. length (spaces ! u))"
      by (intro sum.cong) (simp_all add: rem)
    also have "\<dots> = sum_list (map length spaces)"
      using assms(1) by (simp add: sum_list_sum_nth atLeast0LessThan)
    finally show ?thesis .
  qed
  have gl: "length (gen_take n (?its, 0))
           = min n (\<Sum>u<?N. length (finite_seeds (remaining u ?its)))
         \<and> (\<forall>item \<in> set (gen_take n (?its, 0)). fst item < ?N)"
    by (intro gen_length_finite seed_iterators_distinct) (simp_all add: rem)
  then show len: "length ?out = min n (sum_list (map length spaces))"
    by (simp add: total cycle_seeds_def)
  from gl have tags: "\<forall>x \<in> set ?out. fst x < ?N" by (simp add: cycle_seeds_def)
  assume enough: "sum_list (map length spaces) \<le> n" and k: "k < ?N"
  have proj: "\<exists>m. map snd (filter (\<lambda>x. fst x = j) ?out) = take m (spaces ! j)" if "j < ?N" for j
  proof -
    have "remaining j ?its = ListIter (spaces ! j)" using that by (simp add: rem)
    from gen_take_projection [OF seed_iterators_distinct this, of n 0]
    show ?thesis by (simp add: cycle_seeds_def)
  qed
  have le: "\<forall>j<?N. length (filter (\<lambda>x. fst x = j) ?out) \<le> length (spaces ! j)"
  proof (intro allI impI)
    fix j assume "j < ?N"
    from proj [OF this] obtain m
      where "map snd (filter (\<lambda>x. fst x = j) ?out) = take m (spaces ! j)" ..
    then have "length (filter (\<lambda>x. fst x = j) ?out) = length (take m (spaces ! j))"
      by (metis length_map)
    then show "length (filter (\<lambda>x. fst x = j) ?out) \<le> length (spaces ! j)" by simp
  qed
  have "(\<Sum>j<?N. length (filter (\<lambda>x. fst x = j) ?out)) = length ?out"
    using length_by_tag [OF tags] by simp
  also have "\<dots> = sum_list (map length spaces)" using len enough by simp
  also have "\<dots> = (\<Sum>j<?N. length (spaces ! j))"
    using assms(1) by (simp add: sum_list_sum_nth atLeast0LessThan)
  finally have "length (filter (\<lambda>x. fst x = k) ?out) = length (spaces ! k)"
    using sum_le_eq [OF le _ k] by simp
  moreover from proj [OF k] obtain m
    where m: "map snd (filter (\<lambda>x. fst x = k) ?out) = take m (spaces ! k)" ..
  ultimately have "length (take m (spaces ! k)) = length (spaces ! k)"
    by (metis length_map)
  then have "take m (spaces ! k) = spaces ! k" by (simp add: min_def split: if_splits)
  with m show "map snd (filter (\<lambda>x. fst x = k) ?out) = spaces ! k" by simp
qed

section \<open>Rotation after an iterator is dropped\<close>

text \<open>
  C5 fails on the code.  With seed spaces \<open>[1, 2, 3]\<close>, \<open>[7]\<close> and \<open>[8, 9]\<close>, the iterator
  of target 1 is found exhausted after \<open>(0, 2)\<close> was emitted; the next pair comes from
  target 0 again, the neighbour before the dropped one, and not from target 2.
\<close>

theorem drop_revisits_previous_iterator:
  "gen_take 7
     (cycle_seeds
        [example_permuter 100 {} (Enumerated [1, 2, 3]), example_permuter 100 {} (Enumerated [7]),
         example_permuter 100 {} (Enumerated [8, 9])] None)
   = [(0, 1), (1, 7), (2, 8), (0, 2), (0, 3), (2, 9)]"
  by code_simp

text \<open>
  C8 fails on the code, by the same step back after a drop.  With seed spaces
  \<open>[1]\<close>, \<open>[2, 3]\<close> and \<open>[4, 5]\<close> the generator emits the five pairs, each once, but
  target 2 twice in a row: not in round-robin order.  (That every pair is emitted
  once, and that the generator ends after as many items as there are seeds, holds
  for all finite seed spaces: see the section before.)
\<close>

theorem finite_spaces_not_round_robin:
  "gen_take 6
     (cycle_seeds
        [example_permuter 100 {} (Enumerated [1]), example_permuter 100 {} (Enumerated [2, 3]),
         example_permuter 100 {} (Enumerated [4, 5])] None)
   = [(0, 1), (1, 2), (2, 4), (2, 5), (1, 3)]
   \<and> round_robin [[1], [2, 3], [4, 5]] = [(0, 1), (1, 2), (2, 4), (1, 3), (2, 5)]"
  by code_simp

end
